theory Spec2Isabelle
  imports Main "HOL-Library.Word" "HOL-Library.Char_ord" "HOL-Library.List_Lexorder"
    "HOL-Library.Product_Lexorder" "HOL-Library.Multiset"
begin

unbundle bit_operations_syntax

section \<open>ELF constants and section headers\<close>

text \<open>
  The constants of the ELF gABI that \<^verbatim>\<open>main.cc\<close> uses. Section header fields
  are unsigned machine integers; they are modelled as natural numbers, and every place
  where the source computes in \<^verbatim>\<open>u64\<close> or \<^verbatim>\<open>u32\<close> writes the wrap-around out.
\<close>

definition SHT_NOBITS :: nat where "SHT_NOBITS = 8"
definition SHF_WRITE :: nat where "SHF_WRITE = 0x1"
definition SHF_ALLOC :: nat where "SHF_ALLOC = 0x2"
definition SHF_EXECINSTR :: nat where "SHF_EXECINSTR = 0x4"
definition SHF_TLS :: nat where "SHF_TLS = 0x400"
definition ET_REL :: nat where "ET_REL = 1"
definition ET_DYN :: nat where "ET_DYN = 3"

record ElfShdr =
  sh_type :: nat
  sh_flags :: nat
  sh_addr :: nat
  sh_offset :: nat
  sh_size :: nat
  sh_addralign :: nat

definition u64 :: "nat \<Rightarrow> nat" where
  "u64 n = n mod 2 ^ 64"

definition u32 :: "nat \<Rightarrow> nat" where
  "u32 n = n mod 2 ^ 32"


section \<open>Input classification: \<^verbatim>\<open>get_file_type\<close> and \<^verbatim>\<open>read_file\<close>\<close>

type_synonym byte = "8 word"

record MemoryMappedFile =
  mb_name :: string
  mb_data :: "byte list"
  mb_mtime :: nat

definition mb_size :: "MemoryMappedFile \<Rightarrow> nat" where
  "mb_size mb = length (mb_data mb)"

text \<open>\<^verbatim>\<open>isprint\<close> of the C library in the default "C" locale: the codes 0x20 to 0x7e.\<close>

definition isprint :: "byte \<Rightarrow> bool" where
  "isprint c = (0x20 \<le> c \<and> c \<le> 0x7E)"

definition is_text_file :: "MemoryMappedFile \<Rightarrow> bool" where
  "is_text_file mb =
     (mb_size mb \<ge> 4 \<and>
      isprint (mb_data mb ! 0) \<and>
      isprint (mb_data mb ! 1) \<and>
      isprint (mb_data mb ! 2) \<and>
      isprint (mb_data mb ! 3))"

datatype FileType = UNKNOWN | OBJ | DSO | AR | THIN_AR | TEXT

text \<open>The three magic strings: \<^verbatim>\<open>"\177ELF"\<close>, \<^verbatim>\<open>"!<arch>\n"\<close> and \<^verbatim>\<open>"!<thin>\n"\<close>.\<close>

definition elf_magic :: "byte list" where
  "elf_magic = [0x7F, 0x45, 0x4C, 0x46]"

definition ar_magic :: "byte list" where
  "ar_magic = [0x21, 0x3C, 0x61, 0x72, 0x63, 0x68, 0x3E, 0x0A]"

definition thin_magic :: "byte list" where
  "thin_magic = [0x21, 0x3C, 0x74, 0x68, 0x69, 0x6E, 0x3E, 0x0A]"

text \<open>
  \<^verbatim>\<open>memcmp(mb->data(), magic, n) == 0\<close>, which the source guards by a size test:
  the first \<open>n\<close> bytes of the blob are the magic.
\<close>

definition memcmp_eq :: "byte list \<Rightarrow> byte list \<Rightarrow> nat \<Rightarrow> bool" where
  "memcmp_eq d magic n = (take n d = take n magic)"

text \<open>
  \<^verbatim>\<open>ehdr.e_type\<close>: the header struct is laid over the blob; \<^verbatim>\<open>e_type\<close> is the
  16-bit field after the 16 bytes of \<^verbatim>\<open>e_ident\<close>, read in the byte order of the
  (little-endian) host. The source reads it only when the blob has at least 20 bytes.
\<close>

definition e_type :: "MemoryMappedFile \<Rightarrow> nat" where
  "e_type mb = unat (mb_data mb ! 16) + 256 * unat (mb_data mb ! 17)"

definition get_file_type :: "MemoryMappedFile \<Rightarrow> FileType" where
  "get_file_type mb =
     (if mb_size mb \<ge> 20 \<and> memcmp_eq (mb_data mb) elf_magic 4 then
        (if e_type mb = ET_REL then OBJ
         else if e_type mb = ET_DYN then DSO
         else UNKNOWN)
      else if mb_size mb \<ge> 8 \<and> memcmp_eq (mb_data mb) ar_magic 8 then AR
      else if mb_size mb \<ge> 8 \<and> memcmp_eq (mb_data mb) thin_magic 8 then THIN_AR
      else if is_text_file mb then TEXT
      else UNKNOWN)"

datatype error =
    UnknownFileType string
  | MissingArgument string
  | OutOfBounds
  | AssertionFailed
  | IntegerOverflow
  | CheckpointFailed
  | NullPointer

text \<open>
  \<^verbatim>\<open>read_file\<close> dispatches on the file type. What the five readable kinds do
  (parsing, the preload cache, the archive readers) is outside \<^verbatim>\<open>main.cc\<close>'s own
  logic; the model keeps the branch that is taken, and the fatal default branch.
\<close>

datatype read_action =
    ReadObject | ReadShared | ReadArchive | ReadThinArchive | ReadLinkerScript

definition read_file :: "MemoryMappedFile \<Rightarrow> error + read_action" where
  "read_file mb =
     (case get_file_type mb of
        OBJ \<Rightarrow> Inr ReadObject
      | DSO \<Rightarrow> Inr ReadShared
      | AR \<Rightarrow> Inr ReadArchive
      | THIN_AR \<Rightarrow> Inr ReadThinArchive
      | TEXT \<Rightarrow> Inr ReadLinkerScript
      | UNKNOWN \<Rightarrow> Inl (UnknownFileType (mb_name mb)))"

section \<open>Section rank: \<^verbatim>\<open>get_section_rank\<close>\<close>

text \<open>
  A C++ \<^verbatim>\<open>bool\<close> promoted to \<^verbatim>\<open>int\<close> is 0 or 1; the rank is the bitwise OR of
  the five shifted flags.
\<close>

definition get_section_rank :: "ElfShdr \<Rightarrow> int" where
  "get_section_rank shdr =
     (let alloc = (sh_flags shdr AND SHF_ALLOC \<noteq> 0);
          writable = (sh_flags shdr AND SHF_WRITE \<noteq> 0);
          exec = (sh_flags shdr AND SHF_EXECINSTR \<noteq> 0);
          tls = (sh_flags shdr AND SHF_TLS \<noteq> 0);
          nobits = (sh_type shdr = SHT_NOBITS)
      in push_bit 5 (of_bool (\<not> alloc)) OR push_bit 4 (of_bool writable) OR
         push_bit 3 (of_bool exec) OR push_bit 2 (of_bool (\<not> tls)) OR of_bool nobits)"

text \<open>
  The seven classes of the comment above \<^verbatim>\<open>get_section_rank\<close>, in its order. The
  comment names code only among the read-only sections: a writable class is a class
  of data, so an allocated section that is both writable and executable is in none of
  the seven classes.
\<close>

datatype section_class =
  AllocRoData | AllocRoCode | AllocWrTdata | AllocWrTbss | AllocWrData | AllocWrBss | NonAlloc

fun class_pos :: "section_class \<Rightarrow> nat" where
  "class_pos AllocRoData = 0"
| "class_pos AllocRoCode = 1"
| "class_pos AllocWrTdata = 2"
| "class_pos AllocWrTbss = 3"
| "class_pos AllocWrData = 4"
| "class_pos AllocWrBss = 5"
| "class_pos NonAlloc = 6"

definition section_class_of :: "ElfShdr \<Rightarrow> section_class option" where
  "section_class_of shdr =
     (let alloc = (sh_flags shdr AND SHF_ALLOC \<noteq> 0);
          writable = (sh_flags shdr AND SHF_WRITE \<noteq> 0);
          exec = (sh_flags shdr AND SHF_EXECINSTR \<noteq> 0);
          tls = (sh_flags shdr AND SHF_TLS \<noteq> 0);
          nobits = (sh_type shdr = SHT_NOBITS)
      in if \<not> alloc then Some NonAlloc
         else if \<not> writable then Some (if exec then AllocRoCode else AllocRoData)
         else if exec then None
         else if tls then Some (if nobits then AllocWrTbss else AllocWrTdata)
         else Some (if nobits then AllocWrBss else AllocWrData))"

text \<open>
  \<^verbatim>\<open>main\<close> sorts the chunks with the comparison
  \<^verbatim>\<open>get_section_rank(a->shdr) < get_section_rank(b->shdr)\<close>. \<^verbatim>\<open>std::sort\<close> returns
  some permutation in which no later element compares less than an earlier one.
\<close>

definition sort_chunks :: "ElfShdr list \<Rightarrow> ElfShdr list" where
  "sort_chunks cs = sort_key get_section_rank cs"

text \<open>The conditions of the classification, in the words of the specification.\<close>

definition elf_of_type :: "MemoryMappedFile \<Rightarrow> nat \<Rightarrow> bool" where
  "elf_of_type mb t =
     (mb_size mb \<ge> 20 \<and> memcmp_eq (mb_data mb) elf_magic 4 \<and> e_type mb = t)"

definition starts_with_magic :: "MemoryMappedFile \<Rightarrow> byte list \<Rightarrow> bool" where
  "starts_with_magic mb magic = (mb_size mb \<ge> 8 \<and> memcmp_eq (mb_data mb) magic 8)"

definition first_four_printable :: "MemoryMappedFile \<Rightarrow> bool" where
  "first_four_printable mb = (mb_size mb \<ge> 4 \<and> list_all isprint (take 4 (mb_data mb)))"

text \<open>Two concrete headers: a read-only data section and a \<^verbatim>\<open>.bss\<close> section.\<close>

definition ro_data_example :: ElfShdr where
  "ro_data_example =
     \<lparr>sh_type = 1, sh_flags = 0x2, sh_addr = 0, sh_offset = 0, sh_size = 16, sh_addralign = 8\<rparr>"

definition bss_example :: ElfShdr where
  "bss_example =
     \<lparr>sh_type = 8, sh_flags = 0x3, sh_addr = 0, sh_offset = 0, sh_size = 32, sh_addralign = 8\<rparr>"

section \<open>Command line walkers: \<^verbatim>\<open>read_arg\<close> and \<^verbatim>\<open>get_input_files\<close>\<close>

text \<open>
  The argument list is a \<^verbatim>\<open>std::span<std::string_view>\<close>. \<^verbatim>\<open>args[0]\<close> on an empty
  span reads out of bounds; the model returns \<open>OutOfBounds\<close> there. \<^verbatim>\<open>Fatal()\<close>
  ends the process: the model returns the error.
\<close>

definition starts_with :: "string \<Rightarrow> string \<Rightarrow> bool" where
  "starts_with s p = (take (length p) s = p)"

definition add_dashes :: "string \<Rightarrow> string list" where
  "add_dashes nm =
     [''-'' @ nm] @ (if \<not> starts_with nm ''o'' then [''--'' @ nm] else [])"

text \<open>
  \<^verbatim>\<open>read_arg(args, arg, name)\<close> returns whether the option was read, with the
  updated \<^verbatim>\<open>args\<close> and \<^verbatim>\<open>arg\<close> (both are passed by reference).
\<close>

fun read_arg_opts ::
  "string list \<Rightarrow> string \<Rightarrow> string \<Rightarrow> string list \<Rightarrow> error + (bool \<times> string list \<times> string)" where
  "read_arg_opts args arg nm [] = Inr (False, args, arg)"
| "read_arg_opts args arg nm (opt # opts) =
     (if args = [] then Inl OutOfBounds
      else if hd args = opt then
        (if length args = 1 then Inl (MissingArgument nm)
         else Inr (True, drop 2 args, args ! 1))
      else if starts_with (hd args) (opt @ ''='') then
        Inr (True, drop 1 args, drop (length opt + 1) (hd args))
      else read_arg_opts args arg nm opts)"

definition read_arg ::
  "string list \<Rightarrow> string \<Rightarrow> string \<Rightarrow> error + (bool \<times> string list \<times> string)" where
  "read_arg args arg nm =
     (if length nm = 1 then
        (if args = [] then Inl OutOfBounds
         else if hd args = ''-'' @ nm then
           (if length args = 1 then Inl (MissingArgument nm)
            else Inr (True, drop 2 args, args ! 1))
         else if starts_with (hd args) (''-'' @ nm) then
           Inr (True, drop 1 args, drop (length nm + 1) (hd args))
         else Inr (False, args, arg))
      else read_arg_opts args arg nm (add_dashes nm))"

definition needs_arg :: "string list" where
  "needs_arg =
     [''o'', ''dynamic-linker'', ''export-dynamic'', ''e'', ''entry'', ''y'',
      ''trace-symbol'', ''filler'', ''sysroot'', ''thread-count'', ''z'',
      ''hash-style'', ''m'', ''build-id'', ''rpath'', ''version-script'']"

text \<open>
  One round of the \<^verbatim>\<open>while\<close> body of \<^verbatim>\<open>get_input_files\<close>, on the loop state
  \<open>(args, vec, library_paths)\<close>. The short-circuit \<^verbatim>\<open>||\<close> calls the second
  \<^verbatim>\<open>read_arg\<close> only when the first returns false.
\<close>

definition get_input_files_body ::
  "string list \<times> string list \<times> string list \<Rightarrow>
   error + (string list \<times> string list \<times> string list)" where
  "get_input_files_body st =
     (case st of (args, vec, library_paths) \<Rightarrow>
      if args = [] then Inl OutOfBounds
      else if hd args \<in> set needs_arg then
        (if length args = 1 then Inl (MissingArgument (hd args))
         else Inr (drop 2 args, vec, library_paths))
      else
        (case read_arg args [] ''L'' of
           Inl e \<Rightarrow> Inl e
         | Inr (b1, args1, arg1) \<Rightarrow>
        (case (if b1 then Inr (True, args1, arg1) else read_arg args1 arg1 ''library-path'') of
           Inl e \<Rightarrow> Inl e
         | Inr (b2, args2, arg2) \<Rightarrow>
        (let library_paths2 = (if b2 then library_paths @ [arg2] else library_paths) in
         case read_arg args2 arg2 ''l'' of
           Inl e \<Rightarrow> Inl e
         | Inr (b3, args3, arg3) \<Rightarrow>
             if b3 then Inr (args3, vec @ [arg3], library_paths2)
             else if args3 = [] then Inl OutOfBounds
             else if starts_with (hd args3) ''-'' then Inr (drop 1 args3, vec, library_paths2)
             else Inr (drop 1 args3, vec @ [hd args3], library_paths2)))))"

text \<open>
  The loop \<^verbatim>\<open>while (args.empty()) { ... }\<close>: the body runs while the span is empty.
\<close>

function get_input_files_loop ::
  "string list \<times> string list \<times> string list \<Rightarrow> error + string list" where
  "get_input_files_loop st =
     (if fst st = [] then
        (case get_input_files_body st of
           Inl e \<Rightarrow> Inl e
         | Inr st' \<Rightarrow> get_input_files_loop st')
      else Inr (fst (snd st)))"
  by pat_completeness auto
termination
  by (relation "{}") (auto simp: get_input_files_body_def split: prod.splits)

definition get_input_files :: "string list \<Rightarrow> error + string list" where
  "get_input_files args = get_input_files_loop (args, [], [])"

section \<open>File priorities (in \<^verbatim>\<open>main\<close>)\<close>

text \<open>
  Of an input file the priority loops read \<^verbatim>\<open>is_in_archive\<close> and write
  \<^verbatim>\<open>priority\<close>. The counter is an \<^verbatim>\<open>int\<close>; \<^verbatim>\<open>priority++\<close> at \<^verbatim>\<open>INT_MAX\<close> is
  a signed overflow, which the model reports as an error.
\<close>

record InputFile =
  file_name :: string
  priority :: int

record ObjectFile = InputFile +
  is_in_archive :: bool

record SharedFile = InputFile +
  soname :: string

definition INT_MAX :: int where
  "INT_MAX = 2 ^ 31 - 1"

text \<open>
  \<^verbatim>\<open>for (ObjectFile *file : out::objs) if (file->is_in_archive == in_ar)
  file->priority = priority++;\<close> with the counter passed through.
\<close>

fun set_obj_priorities ::
  "bool \<Rightarrow> ObjectFile list \<Rightarrow> int \<Rightarrow> error + (ObjectFile list \<times> int)" where
  "set_obj_priorities in_ar [] p = Inr ([], p)"
| "set_obj_priorities in_ar (f # fs) p =
     (if is_in_archive f = in_ar then
        (if p = INT_MAX then Inl IntegerOverflow
         else case set_obj_priorities in_ar fs (p + 1) of
                Inl e \<Rightarrow> Inl e
              | Inr (fs', p') \<Rightarrow> Inr (f\<lparr>priority := p\<rparr> # fs', p'))
      else case set_obj_priorities in_ar fs p of
             Inl e \<Rightarrow> Inl e
           | Inr (fs', p') \<Rightarrow> Inr (f # fs', p'))"

fun set_dso_priorities ::
  "SharedFile list \<Rightarrow> int \<Rightarrow> error + (SharedFile list \<times> int)" where
  "set_dso_priorities [] p = Inr ([], p)"
| "set_dso_priorities (f # fs) p =
     (if p = INT_MAX then Inl IntegerOverflow
      else case set_dso_priorities fs (p + 1) of
             Inl e \<Rightarrow> Inl e
           | Inr (fs', p') \<Rightarrow> Inr (f\<lparr>priority := p\<rparr> # fs', p'))"

definition set_priorities ::
  "ObjectFile list \<Rightarrow> SharedFile list \<Rightarrow> error + (ObjectFile list \<times> SharedFile list)" where
  "set_priorities objs dsos =
     (case set_obj_priorities False objs 2 of
        Inl e \<Rightarrow> Inl e
      | Inr (objs1, p1) \<Rightarrow>
     (case set_obj_priorities True objs1 p1 of
        Inl e \<Rightarrow> Inl e
      | Inr (objs2, p2) \<Rightarrow>
     (case set_dso_priorities dsos p2 of
        Inl e \<Rightarrow> Inl e
      | Inr (dsos3, p3) \<Rightarrow> Inr (objs2, dsos3))))"

section \<open>Slicing: \<^verbatim>\<open>split\<close>\<close>

text \<open>
  \<^verbatim>\<open>split\<close> takes \<^verbatim>\<open>int unit\<close>. In \<^verbatim>\<open>span.size() >= unit\<close> and in the calls of
  \<^verbatim>\<open>subspan\<close> the \<^verbatim>\<open>int\<close> is converted to the 64-bit unsigned \<^verbatim>\<open>size_t\<close>.
  The loop need not end, so it is a partial function: \<open>None\<close> is a run that never
  returns.
\<close>

definition to_size_t :: "int \<Rightarrow> nat" where
  "to_size_t i = nat (i mod 2 ^ 64)"

partial_function (option) split_loop ::
  "nat \<Rightarrow> 'a list \<Rightarrow> 'a list list \<Rightarrow> ('a list \<times> 'a list list) option" where
  "split_loop unit span vec =
     (if length span \<ge> unit then split_loop unit (drop unit span) (vec @ [take unit span])
      else Some (span, vec))"

definition split :: "'a list \<Rightarrow> int \<Rightarrow> (error + 'a list list) option" where
  "split input unit =
     (if \<not> length input > 0 then Some (Inl AssertionFailed)
      else case split_loop (to_size_t unit) input [] of
             None \<Rightarrow> None
           | Some (span, vec) \<Rightarrow> Some (Inr (if span \<noteq> [] then vec @ [span] else vec)))"

text \<open>
  \<^verbatim>\<open>int unit = (out::objs.size() + 127) / 128\<close> in \<^verbatim>\<open>bin_sections\<close>: the
  quotient is computed in \<^verbatim>\<open>size_t\<close> and converted to \<^verbatim>\<open>int\<close> (modulo \<open>2^32\<close>).
\<close>

definition to_int :: "nat \<Rightarrow> int" where
  "to_int n = (int n + 2 ^ 31) mod 2 ^ 32 - 2 ^ 31"

definition bin_sections_unit :: "nat \<Rightarrow> int" where
  "bin_sections_unit n = to_int (u64 (n + 127) div 128)"


text \<open>Four input files as they are before the priority loops run.\<close>

definition main_o :: ObjectFile where
  "main_o = \<lparr>file_name = ''main.o'', priority = 0, is_in_archive = False\<rparr>"

definition libc_printf_o :: ObjectFile where
  "libc_printf_o = \<lparr>file_name = ''libc.a(printf.o)'', priority = 0, is_in_archive = True\<rparr>"

definition util_o :: ObjectFile where
  "util_o = \<lparr>file_name = ''util.o'', priority = 0, is_in_archive = False\<rparr>"

definition libm_so :: SharedFile where
  "libm_so = \<lparr>file_name = ''libm.so'', priority = 0, soname = ''libm.so.6''\<rparr>"

section \<open>Layout: \<^verbatim>\<open>set_osec_offsets\<close>\<close>

text \<open>
  Of an output chunk the layout reads and writes the section header and reads the
  \<^verbatim>\<open>starts_new_ptload\<close> hint.
\<close>

record OutputChunk =
  chunk_name :: string
  shdr :: ElfShdr
  starts_new_ptload :: bool

text \<open>
  Modelled from the spec: \<^verbatim>\<open>align_to\<close> is declared in \<^verbatim>\<open>mold.h\<close>, which is not
  among the sources. The specification has it round a value up to the alignment
  ("align up to its addralign", "round vaddr up to PAGE_SIZE"): the result is the least
  multiple of \<open>align\<close> that is not below \<open>val\<close>, in \<^verbatim>\<open>u64\<close>. Nothing below relies on
  its value for \<open>align = 0\<close>.
\<close>

definition align_to :: "nat \<Rightarrow> nat \<Rightarrow> nat" where
  "align_to val align = u64 ((val + align - 1) div align * align)"

text \<open>The value of \<^verbatim>\<open>align_to\<close> before the reduction to 64 bits.\<close>

definition round_up :: "nat \<Rightarrow> nat \<Rightarrow> nat" where
  "round_up x a = (x + a - 1) div a * a"

definition is_alloc :: "OutputChunk \<Rightarrow> bool" where
  "is_alloc chunk = (sh_flags (shdr chunk) AND SHF_ALLOC \<noteq> 0)"

definition is_bss :: "OutputChunk \<Rightarrow> bool" where
  "is_bss chunk = (sh_type (shdr chunk) = SHT_NOBITS)"

definition is_tbss :: "OutputChunk \<Rightarrow> bool" where
  "is_tbss chunk = (is_bss chunk \<and> sh_flags (shdr chunk) AND SHF_TLS \<noteq> 0)"

text \<open>
  One round of the loop of \<^verbatim>\<open>set_osec_offsets\<close>: from the running \<open>fileoff\<close> and
  \<open>vaddr\<close> to the updated chunk and the new \<open>fileoff\<close> and \<open>vaddr\<close>. \<^verbatim>\<open>PAGE_SIZE\<close>
  is a constant of \<^verbatim>\<open>mold.h\<close>; it is the parameter \<open>page\<close>.
\<close>

definition osec_step :: "nat \<Rightarrow> nat \<Rightarrow> nat \<Rightarrow> OutputChunk \<Rightarrow> OutputChunk \<times> nat \<times> nat" where
  "osec_step page fileoff vaddr chunk =
     (let vaddr1 = (if starts_new_ptload chunk then align_to vaddr page else vaddr);
          fileoff1 =
            (if vaddr1 mod page > fileoff mod page then
               u64 (fileoff + (vaddr1 mod page - fileoff mod page))
             else if vaddr1 mod page < fileoff mod page then
               u64 (align_to fileoff page + vaddr1 mod page)
             else fileoff);
          fileoff2 = align_to fileoff1 (sh_addralign (shdr chunk));
          vaddr2 = align_to vaddr1 (sh_addralign (shdr chunk));
          chunk' = chunk\<lparr>shdr := (shdr chunk)\<lparr>
                     sh_offset := fileoff2,
                     sh_addr := (if is_alloc chunk then vaddr2 else sh_addr (shdr chunk))\<rparr>\<rparr>;
          fileoff3 = (if \<not> is_bss chunk then u64 (fileoff2 + sh_size (shdr chunk)) else fileoff2);
          vaddr3 = (if \<not> is_tbss chunk then u64 (vaddr2 + sh_size (shdr chunk)) else vaddr2)
      in (chunk', fileoff3, vaddr3))"

fun set_osec_offsets_loop ::
  "nat \<Rightarrow> nat \<Rightarrow> nat \<Rightarrow> OutputChunk list \<Rightarrow> OutputChunk list \<times> nat" where
  "set_osec_offsets_loop page fileoff vaddr [] = ([], fileoff)"
| "set_osec_offsets_loop page fileoff vaddr (chunk # chunks) =
     (case osec_step page fileoff vaddr chunk of
        (chunk', fileoff', vaddr') \<Rightarrow>
          (case set_osec_offsets_loop page fileoff' vaddr' chunks of
             (chunks', r) \<Rightarrow> (chunk' # chunks', r)))"

text \<open>
  \<^verbatim>\<open>set_osec_offsets(chunks)\<close> with \<^verbatim>\<open>config.image_base\<close> as a parameter: the
  chunks with their offsets and addresses, and the returned final \<open>fileoff\<close>.
\<close>

definition set_osec_offsets :: "nat \<Rightarrow> nat \<Rightarrow> OutputChunk list \<Rightarrow> OutputChunk list \<times> nat" where
  "set_osec_offsets page image_base chunks = set_osec_offsets_loop page 0 image_base chunks"

text \<open>
  The layout in the words of the specification, on natural numbers without a bound.
  Where a chunk is placed: when it has \<^verbatim>\<open>starts_new_ptload\<close>, round \<open>vaddr\<close> up to the
  page size; keep \<open>vaddr mod PAGE_SIZE = fileoff mod PAGE_SIZE\<close> by advancing \<open>fileoff\<close>
  or by aligning \<open>fileoff\<close> to the page size and then adding \<open>vaddr mod PAGE_SIZE\<close>; align
  both to the chunk's \<open>sh_addralign\<close>.
\<close>

definition spec_place :: "nat \<Rightarrow> nat \<Rightarrow> nat \<Rightarrow> OutputChunk \<Rightarrow> nat \<times> nat" where
  "spec_place page fileoff vaddr chunk =
     (let v = (if starts_new_ptload chunk then round_up vaddr page else vaddr);
          f = (if fileoff mod page < v mod page then fileoff + (v mod page - fileoff mod page)
               else if v mod page < fileoff mod page then round_up fileoff page + v mod page
               else fileoff)
      in (round_up f (sh_addralign (shdr chunk)), round_up v (sh_addralign (shdr chunk))))"

text \<open>
  The chunk gets the offset, and the address if it is \<^verbatim>\<open>SHF_ALLOC\<close>; then \<open>fileoff\<close>
  advances by \<open>sh_size\<close> unless the chunk is \<^verbatim>\<open>SHT_NOBITS\<close>, and \<open>vaddr\<close> advances by
  \<open>sh_size\<close> unless the chunk is both \<^verbatim>\<open>SHT_NOBITS\<close> and \<^verbatim>\<open>SHF_TLS\<close>. The final
  \<open>fileoff\<close> is the size of the output file.
\<close>

fun spec_layout ::
  "nat \<Rightarrow> nat \<Rightarrow> nat \<Rightarrow> OutputChunk list \<Rightarrow> OutputChunk list \<times> nat" where
  "spec_layout page fileoff vaddr [] = ([], fileoff)"
| "spec_layout page fileoff vaddr (chunk # chunks) =
     (case spec_place page fileoff vaddr chunk of
        (off, addr) \<Rightarrow>
          (case spec_layout page
                  (off + (if is_bss chunk then 0 else sh_size (shdr chunk)))
                  (addr + (if is_tbss chunk then 0 else sh_size (shdr chunk))) chunks of
             (chunks', filesize) \<Rightarrow>
               (chunk\<lparr>shdr := (shdr chunk)\<lparr>
                   sh_offset := off,
                   sh_addr := (if is_alloc chunk then addr else sh_addr (shdr chunk))\<rparr>\<rparr> # chunks',
                filesize)))"

text \<open>
  The logical end of a chunk in the file: \<open>sh_offset + sh_size\<close>, or \<open>sh_offset\<close> for
  a \<^verbatim>\<open>SHT_NOBITS\<close> chunk; and the end of its addresses.
\<close>

definition chunk_end :: "OutputChunk \<Rightarrow> nat" where
  "chunk_end chunk =
     sh_offset (shdr chunk) + (if is_bss chunk then 0 else sh_size (shdr chunk))"

definition chunk_addr_end :: "OutputChunk \<Rightarrow> nat" where
  "chunk_addr_end chunk =
     sh_addr (shdr chunk) + (if is_tbss chunk then 0 else sh_size (shdr chunk))"

text \<open>
  An upper bound of the bytes the layout can take: per chunk one page, its alignment
  and its size.
\<close>

definition layout_extent :: "nat \<Rightarrow> OutputChunk list \<Rightarrow> nat" where
  "layout_extent page chunks =
     sum_list (map (\<lambda>c. page + sh_addralign (shdr c) + sh_size (shdr c)) chunks)"

text \<open>Each chunk ends in the file where the next one starts, or before.\<close>

fun file_ordered :: "OutputChunk list \<Rightarrow> bool" where
  "file_ordered (a # b # cs) = (chunk_end a \<le> sh_offset (shdr b) \<and> file_ordered (b # cs))"
| "file_ordered cs = True"

text \<open>
  The same for the addresses of the \<^verbatim>\<open>SHF_ALLOC\<close> chunks; \<open>lo\<close> is the end of the
  last allocated chunk seen so far.
\<close>

fun addr_ordered :: "nat \<Rightarrow> OutputChunk list \<Rightarrow> bool" where
  "addr_ordered lo [] = True"
| "addr_ordered lo (c # cs) =
     (if is_alloc c then lo \<le> sh_addr (shdr c) \<and> addr_ordered (chunk_addr_end c) cs
      else addr_ordered lo cs)"

section \<open>Output buffer: \<^verbatim>\<open>OutputFile::open\<close> and \<^verbatim>\<open>clear_padding\<close>\<close>

text \<open>
  \<^verbatim>\<open>memset(buf + pos, c, n)\<close> on the output buffer; a write beyond the mapped
  \<open>filesize\<close> bytes is out of bounds.
\<close>

definition memset :: "byte list \<Rightarrow> nat \<Rightarrow> byte \<Rightarrow> nat \<Rightarrow> error + byte list" where
  "memset buf pos c n =
     (if pos + n \<le> length buf then Inr (take pos buf @ replicate n c @ drop (pos + n) buf)
      else Inl OutOfBounds)"

text \<open>
  The lambda \<^verbatim>\<open>zero\<close> of \<^verbatim>\<open>clear_padding\<close>. \<^verbatim>\<open>next_start - pos\<close> is a
  \<^verbatim>\<open>u64\<close> subtraction.
\<close>

definition zero :: "OutputChunk \<Rightarrow> nat \<Rightarrow> byte list \<Rightarrow> error + byte list" where
  "zero chunk next_start buf =
     (let pos = sh_offset (shdr chunk);
          pos' = (if sh_type (shdr chunk) \<noteq> SHT_NOBITS then u64 (pos + sh_size (shdr chunk))
                  else pos)
      in memset buf pos' 0 (u64 (2 ^ 64 + next_start - pos')))"

fun clear_padding_loop :: "OutputChunk list \<Rightarrow> byte list \<Rightarrow> error + byte list" where
  "clear_padding_loop (a # b # cs) buf =
     (case zero a (sh_offset (shdr b)) buf of
        Inl e \<Rightarrow> Inl e
      | Inr buf' \<Rightarrow> clear_padding_loop (b # cs) buf')"
| "clear_padding_loop cs buf = Inr buf"

text \<open>\<^verbatim>\<open>out::chunks.back()\<close> of an empty vector is an access out of bounds.\<close>

definition clear_padding :: "nat \<Rightarrow> OutputChunk list \<Rightarrow> byte list \<Rightarrow> error + byte list" where
  "clear_padding filesize chunks buf =
     (case clear_padding_loop chunks buf of
        Inl e \<Rightarrow> Inl e
      | Inr buf' \<Rightarrow> if chunks = [] then Inl OutOfBounds else zero (last chunks) filesize buf')"

text \<open>
  \<^verbatim>\<open>OutputFile::open\<close> maps \<open>filesize\<close> bytes, whose content \<open>mapped\<close> is whatever
  the mapping holds, and fills them with the filler byte when one is configured
  (\<^verbatim>\<open>filler != -1\<close>); \<^verbatim>\<open>memset\<close> converts the filler to \<^verbatim>\<open>unsigned char\<close>.
\<close>

definition OutputFile_open :: "int \<Rightarrow> nat \<Rightarrow> byte list \<Rightarrow> byte list" where
  "OutputFile_open filler filesize mapped =
     (if filler \<noteq> - 1 then replicate filesize (of_int filler) else take filesize mapped)"

text \<open>
  The end of \<^verbatim>\<open>main\<close>: the buffer is opened with the size that \<^verbatim>\<open>set_osec_offsets\<close>
  returned, every chunk runs its \<^verbatim>\<open>copy_buf\<close> (a virtual function defined outside
  \<^verbatim>\<open>main.cc\<close>, here a parameter that writes into the buffer), and
  \<^verbatim>\<open>clear_padding\<close> gets the same size.
\<close>

definition write_output ::
  "nat \<Rightarrow> nat \<Rightarrow> int \<Rightarrow> byte list \<Rightarrow> (OutputChunk \<Rightarrow> byte list \<Rightarrow> byte list) \<Rightarrow>
   OutputChunk list \<Rightarrow> error + byte list" where
  "write_output page image_base filler mapped copy_buf chunks =
     (case set_osec_offsets page image_base chunks of
        (chunks', filesize) \<Rightarrow>
          (let buf = OutputFile_open filler filesize mapped;
               buf' = foldl (\<lambda>b c. copy_buf c b) buf chunks'
           in clear_padding filesize chunks' buf'))"

text \<open>The padding of a laid-out chunk list: the positions between the chunks and after the last.\<close>

fun in_padding :: "OutputChunk list \<Rightarrow> nat \<Rightarrow> nat \<Rightarrow> bool" where
  "in_padding [] filesize j = False"
| "in_padding [a] filesize j = (chunk_end a \<le> j \<and> j < filesize)"
| "in_padding (a # b # cs) filesize j =
     ((chunk_end a \<le> j \<and> j < sh_offset (shdr b)) \<or> in_padding (b # cs) filesize j)"


text \<open>
  Example chunks: two \<^verbatim>\<open>SHT_NOBITS\<close> sections of which the first is nearly
  \<open>2^64\<close> bytes long, and a read-only data section followed by a text section.
\<close>

definition mk_chunk :: "string \<Rightarrow> nat \<Rightarrow> nat \<Rightarrow> nat \<Rightarrow> nat \<Rightarrow> bool \<Rightarrow> OutputChunk" where
  "mk_chunk nm ty fl sz al pt =
     \<lparr>chunk_name = nm,
      shdr = \<lparr>sh_type = ty, sh_flags = fl, sh_addr = 0, sh_offset = 0, sh_size = sz,
              sh_addralign = al\<rparr>,
      starts_new_ptload = pt\<rparr>"

definition huge_bss_chunks :: "OutputChunk list" where
  "huge_bss_chunks =
     [mk_chunk ''.bss'' 8 0x3 0xFFFFFFFFFFE00000 16 False,
      mk_chunk ''.lbss'' 8 0x3 16 16 False]"

definition small_chunks :: "OutputChunk list" where
  "small_chunks =
     [mk_chunk ''.rodata'' 1 0x2 64 8 True,
      mk_chunk ''.text'' 1 0x6 100 16 True]"

text \<open>The read-only data and text sections after the layout.\<close>

definition small_chunks_laid_out :: "OutputChunk list" where
  "small_chunks_laid_out = fst (set_osec_offsets 4096 0x200000 small_chunks)"

section \<open>Offsets of input sections: \<^verbatim>\<open>set_isec_offsets\<close>\<close>

text \<open>
  Of an input section the pass reads \<^verbatim>\<open>shdr.sh_addralign\<close> and \<^verbatim>\<open>shdr.sh_size\<close>
  and writes \<^verbatim>\<open>offset\<close>; of an output section it reads \<^verbatim>\<open>members\<close> and writes
  \<^verbatim>\<open>shdr.sh_size\<close> and \<^verbatim>\<open>shdr.sh_addralign\<close>. The width of the field
  \<^verbatim>\<open>InputChunk::offset\<close> is declared in \<^verbatim>\<open>mold.h\<close>, which is not among the sources:
  it is the parameter \<open>w\<close>, and a value stored in the field is reduced modulo \<open>2^w\<close>.
\<close>

record InputChunk =
  isec_name :: string
  isec_shdr :: ElfShdr
  offset :: nat

record OutputSection =
  osec_shdr :: ElfShdr
  members :: "InputChunk list"

definition trunc :: "nat \<Rightarrow> nat \<Rightarrow> nat" where
  "trunc w n = n mod 2 ^ w"

text \<open>
  The first inner loop, over one slice, from \<^verbatim>\<open>u64 off = 0\<close> and \<^verbatim>\<open>u32 align = 1\<close>:
  the slice with its local offsets, the final \<open>off\<close> and the final \<open>align\<close>.
  \<^verbatim>\<open>std::max<u32>\<close> converts both arguments to \<^verbatim>\<open>u32\<close>.
\<close>

fun slice_offsets ::
  "nat \<Rightarrow> nat \<Rightarrow> nat \<Rightarrow> InputChunk list \<Rightarrow> InputChunk list \<times> nat \<times> nat" where
  "slice_offsets w off align [] = ([], off, align)"
| "slice_offsets w off align (isec # rest) =
     (let off1 = align_to off (sh_addralign (isec_shdr isec));
          isec' = isec\<lparr>offset := trunc w off1\<rparr>;
          off2 = u64 (off1 + sh_size (isec_shdr isec));
          align' = max (u32 align) (u32 (sh_addralign (isec_shdr isec)))
      in case slice_offsets w off2 align' rest of
           (rest', sz, al) \<Rightarrow> (isec' # rest', sz, al))"

text \<open>
  \<^verbatim>\<open>start[0] = 0\<close> and \<^verbatim>\<open>start[i] = align_to(start[i - 1] + size[i - 1], align)\<close>:
  the list of the starts, for the list of the slice sizes.
\<close>

fun slice_starts :: "nat \<Rightarrow> nat \<Rightarrow> nat list \<Rightarrow> nat list" where
  "slice_starts align st [] = []"
| "slice_starts align st (sz # szs) =
     st # slice_starts align (align_to (u64 (st + sz)) align) szs"

text \<open>\<^verbatim>\<open>isec->offset += start[i]\<close> for the members of slice \<open>i\<close>, for \<open>i \<ge> 1\<close>.\<close>

definition rebase :: "nat \<Rightarrow> nat \<Rightarrow> InputChunk list \<Rightarrow> InputChunk list" where
  "rebase w st sl = map (\<lambda>isec. isec\<lparr>offset := trunc w (offset isec + st)\<rparr>) sl"

fun rebase_slices :: "nat \<Rightarrow> nat list \<Rightarrow> InputChunk list list \<Rightarrow> InputChunk list list" where
  "rebase_slices w (st # sts) (sl # sls) = sl # map (\<lambda>(st, sl). rebase w st sl) (zip sts sls)"
| "rebase_slices w sts sls = sls"

text \<open>
  The body of the \<^verbatim>\<open>parallel_for_each\<close> for one output section. The slices are
  spans of \<^verbatim>\<open>members\<close>, so the members afterwards are the slices in order.
\<close>

definition isec_slices :: "nat \<Rightarrow> InputChunk list list \<Rightarrow> (InputChunk list \<times> nat \<times> nat) list" where
  "isec_slices w slices = map (slice_offsets w 0 1) slices"

definition isec_sizes :: "nat \<Rightarrow> InputChunk list list \<Rightarrow> nat list" where
  "isec_sizes w slices = map (\<lambda>r. fst (snd r)) (isec_slices w slices)"

definition isec_align :: "nat \<Rightarrow> InputChunk list list \<Rightarrow> nat" where
  "isec_align w slices = Max (set (map (\<lambda>r. snd (snd r)) (isec_slices w slices)))"

definition isec_starts :: "nat \<Rightarrow> InputChunk list list \<Rightarrow> nat list" where
  "isec_starts w slices = slice_starts (isec_align w slices) 0 (isec_sizes w slices)"

definition set_isec_offsets_osec :: "nat \<Rightarrow> OutputSection \<Rightarrow> (error + OutputSection) option" where
  "set_isec_offsets_osec w osec =
     (if members osec = [] then Some (Inr osec)
      else case split (members osec) 10000 of
             None \<Rightarrow> None
           | Some (Inl e) \<Rightarrow> Some (Inl e)
           | Some (Inr slices) \<Rightarrow>
               Some (Inr (osec\<lparr>
                 members :=
                   concat (rebase_slices w (isec_starts w slices)
                     (map fst (isec_slices w slices))),
                 osec_shdr := (osec_shdr osec)\<lparr>
                   sh_size := u64 (last (isec_starts w slices) + last (isec_sizes w slices)),
                   sh_addralign := isec_align w slices\<rparr>\<rparr>)))"

definition set_isec_offsets ::
  "nat \<Rightarrow> OutputSection list \<Rightarrow> (error + OutputSection) option list" where
  "set_isec_offsets w instances = map (set_isec_offsets_osec w) instances"

text \<open>
  A valid alignment of an input section: a power of two that fits \<^verbatim>\<open>u32\<close>. The bound
  \<open>isec_extent\<close> is an upper bound of the size the members can take: per member its size
  and twice the largest alignment.
\<close>

definition valid_align :: "nat \<Rightarrow> bool" where
  "valid_align a = (a \<in> (\<lambda>k. 2 ^ k) ` {0 ..< 32})"

definition max_align :: "InputChunk list \<Rightarrow> nat" where
  "max_align ms = Max (set (map (\<lambda>i. sh_addralign (isec_shdr i)) ms))"

definition isec_extent :: "InputChunk list \<Rightarrow> nat" where
  "isec_extent ms = sum_list (map (\<lambda>i. sh_size (isec_shdr i) + 2 * max_align ms) ms)"

definition mk_isec :: "string \<Rightarrow> nat \<Rightarrow> nat \<Rightarrow> InputChunk" where
  "mk_isec nm sz al =
     \<lparr>isec_name = nm,
      isec_shdr = \<lparr>sh_type = 1, sh_flags = 0x2, sh_addr = 0, sh_offset = 0, sh_size = sz,
                   sh_addralign = al\<rparr>,
      offset = 0\<rparr>"

definition mk_osec :: "InputChunk list \<Rightarrow> OutputSection" where
  "mk_osec ms =
     \<lparr>osec_shdr = \<lparr>sh_type = 1, sh_flags = 0x2, sh_addr = 0, sh_offset = 0, sh_size = 0,
                   sh_addralign = 1\<rparr>,
      members = ms\<rparr>"


text \<open>
  Example members: two sections whose sizes add up to more than \<open>2^64\<close>, with the
  output section that the pass makes of them; and two small sections, with theirs.
\<close>

definition wrapping_members :: "InputChunk list" where
  "wrapping_members = [mk_isec ''.bss.a'' 0xFFFFFFFFFFFFFFF8 8, mk_isec ''.bss.b'' 16 8]"

definition wrapped_osec :: OutputSection where
  "wrapped_osec =
     \<lparr>osec_shdr = \<lparr>sh_type = 1, sh_flags = 0x2, sh_addr = 0, sh_offset = 0, sh_size = 8,
                   sh_addralign = 8\<rparr>,
      members =
        [\<lparr>isec_name = ''.bss.a'',
          isec_shdr = \<lparr>sh_type = 1, sh_flags = 0x2, sh_addr = 0, sh_offset = 0,
                       sh_size = 0xFFFFFFFFFFFFFFF8, sh_addralign = 8\<rparr>,
          offset = 0\<rparr>,
         \<lparr>isec_name = ''.bss.b'',
          isec_shdr = \<lparr>sh_type = 1, sh_flags = 0x2, sh_addr = 0, sh_offset = 0,
                       sh_size = 16, sh_addralign = 8\<rparr>,
          offset = 0xFFFFFFFFFFFFFFF8\<rparr>]\<rparr>"

definition small_members :: "InputChunk list" where
  "small_members = [mk_isec ''.text.a'' 10 4, mk_isec ''.text.b'' 3 16]"

definition small_osec_laid_out :: OutputSection where
  "small_osec_laid_out =
     \<lparr>osec_shdr = \<lparr>sh_type = 1, sh_flags = 0x2, sh_addr = 0, sh_offset = 0, sh_size = 19,
                   sh_addralign = 16\<rparr>,
      members =
        [\<lparr>isec_name = ''.text.a'',
          isec_shdr = \<lparr>sh_type = 1, sh_flags = 0x2, sh_addr = 0, sh_offset = 0,
                       sh_size = 10, sh_addralign = 4\<rparr>,
          offset = 0\<rparr>,
         \<lparr>isec_name = ''.text.b'',
          isec_shdr = \<lparr>sh_type = 1, sh_flags = 0x2, sh_addr = 0, sh_offset = 0,
                       sh_size = 3, sh_addralign = 16\<rparr>,
          offset = 16\<rparr>]\<rparr>"

text \<open>
  Further example members: one with the alignment \<open>2^32\<close>, which does not fit
  \<^verbatim>\<open>u32\<close>; one with the alignment 0; and 10000 sections of alignment 4 followed by
  one of alignment 3, which make two slices. Each with the output section that the pass
  makes of them.
\<close>

definition cut_members :: "InputChunk list" where
  "cut_members = [mk_isec ''.a'' 8 8, mk_isec ''.b'' 8 0x100000000, mk_isec ''.c'' 8 16]"

definition cut_osec :: OutputSection where
  "cut_osec =
     \<lparr>osec_shdr = \<lparr>sh_type = 1, sh_flags = 0x2, sh_addr = 0, sh_offset = 0,
                   sh_size = 0x100000018, sh_addralign = 16\<rparr>,
      members =
        [(mk_isec ''.a'' 8 8)\<lparr>offset := 0\<rparr>,
         (mk_isec ''.b'' 8 0x100000000)\<lparr>offset := 0x100000000\<rparr>,
         (mk_isec ''.c'' 8 16)\<lparr>offset := 0x100000010\<rparr>]\<rparr>"

definition zero_members :: "InputChunk list" where
  "zero_members = [mk_isec ''.z'' 4 0]"

definition zero_osec :: OutputSection where
  "zero_osec =
     \<lparr>osec_shdr = \<lparr>sh_type = 1, sh_flags = 0x2, sh_addr = 0, sh_offset = 0,
                   sh_size = 4, sh_addralign = 1\<rparr>,
      members = [(mk_isec ''.z'' 4 0)\<lparr>offset := 0\<rparr>]\<rparr>"

definition many_members :: "nat \<Rightarrow> InputChunk list" where
  "many_members n = replicate n (mk_isec ''.a'' 4 4) @ [mk_isec ''.b'' 3 3]"

definition many_osec :: "nat \<Rightarrow> OutputSection" where
  "many_osec n =
     \<lparr>osec_shdr = \<lparr>sh_type = 1, sh_flags = 0x2, sh_addr = 0, sh_offset = 0,
                   sh_size = 4 * n + 3, sh_addralign = 4\<rparr>,
      members =
        map (\<lambda>k. (mk_isec ''.a'' 4 4)\<lparr>offset := 4 * k\<rparr>) [0 ..< n] @
        [(mk_isec ''.b'' 3 3)\<lparr>offset := 4 * n\<rparr>]\<rparr>"

section \<open>Duplicate symbols: \<^verbatim>\<open>check_duplicate_symbols\<close>\<close>
















































section \<open>Symbol versions: \<^verbatim>\<open>fill_symbol_versions\<close>\<close>



text \<open>
  \<^verbatim>\<open>.gnu.version_r\<close> is a byte buffer in which the source lays \<^verbatim>\<open>ElfVerneed\<close> records,
  each followed by its \<^verbatim>\<open>ElfVernaux\<close> records; the model keeps the records. Offsets
  into \<^verbatim>\<open>.dynstr\<close> (the results of \<^verbatim>\<open>add_string\<close> and \<^verbatim>\<open>find_string\<close>, which are
  defined outside \<^verbatim>\<open>main.cc\<close>) are represented by the strings they refer to, and
  \<^verbatim>\<open>elf_hash\<close>, also defined outside, is a parameter. Both records are 16 bytes long.
\<close>

record ElfVerneed =
  vn_version :: nat
  vn_cnt :: nat
  vn_file :: string
  vn_aux :: nat
  vn_next :: nat

record ElfVernaux =
  vna_hash :: nat
  vna_other :: nat
  vna_name :: string
  vna_next :: nat


text \<open>
  The state of the pass: the \<^verbatim>\<open>u16 version\<close> counter, the records written so far (the
  pointers \<^verbatim>\<open>verneed\<close> and \<^verbatim>\<open>aux\<close> point into the last group), the contents of
  \<^verbatim>\<open>.gnu.version\<close>, and \<^verbatim>\<open>sh_info\<close> and the size in bytes of \<^verbatim>\<open>.gnu.version_r\<close>.
\<close>

record VersionState =
  version :: nat
  verneed_records :: "(ElfVerneed \<times> ElfVernaux list) list"
  versym :: "nat list"
  verneed_info :: nat
  verneed_size :: nat


























section \<open>Verification: input classification\<close>

lemma elf_first: "memcmp_eq d elf_magic 4 \<Longrightarrow> length d \<ge> 4 \<Longrightarrow> d ! 0 = 0x7F"
proof -
  assume a: "memcmp_eq d elf_magic 4" and l: "length d \<ge> 4"
  have "take 4 d ! 0 = d ! 0" by simp
  with a show ?thesis by (simp add: memcmp_eq_def elf_magic_def)
qed

lemma ar_first: "memcmp_eq d ar_magic 8 \<Longrightarrow> length d \<ge> 8 \<Longrightarrow> d ! 0 = 0x21"
proof -
  assume a: "memcmp_eq d ar_magic 8" and l: "length d \<ge> 8"
  have "take 8 d ! 0 = d ! 0" by simp
  with a show ?thesis by (simp add: memcmp_eq_def ar_magic_def)
qed

lemma thin_first: "memcmp_eq d thin_magic 8 \<Longrightarrow> length d \<ge> 8 \<Longrightarrow> d ! 0 = 0x21"
proof -
  assume a: "memcmp_eq d thin_magic 8" and l: "length d \<ge> 8"
  have "take 8 d ! 0 = d ! 0" by simp
  with a show ?thesis by (simp add: memcmp_eq_def thin_magic_def)
qed

lemma ar_not_thin: "memcmp_eq d ar_magic 8 \<Longrightarrow> memcmp_eq d thin_magic 8 \<Longrightarrow> False"
  by (simp add: memcmp_eq_def ar_magic_def thin_magic_def)

lemma elf_not_text: "memcmp_eq (mb_data mb) elf_magic 4 \<Longrightarrow> \<not> is_text_file mb"
  using elf_first[of "mb_data mb"] by (auto simp: is_text_file_def mb_size_def isprint_def)

lemma take_four: "length d \<ge> 4 \<Longrightarrow> take 4 d = [d ! 0, d ! 1, d ! 2, d ! 3]"
  by (cases d; cases "tl d"; cases "tl (tl d)"; cases "tl (tl (tl d))")
     (auto simp: numeral_eq_Suc)

lemma first_four_printable_iff: "first_four_printable mb = is_text_file mb"
  using take_four[of "mb_data mb"]
  by (auto simp: first_four_printable_def is_text_file_def mb_size_def)

text \<open>
  Claim C7. \<^verbatim>\<open>get_file_type\<close> returns OBJ exactly for a blob of at least 20 bytes
  that starts with the ELF magic and has \<^verbatim>\<open>e_type\<close> \<^verbatim>\<open>ET_REL\<close>, DSO exactly for
  the same with \<^verbatim>\<open>ET_DYN\<close>, AR exactly for a blob that starts with the eight bytes
  \<^verbatim>\<open>!<arch>\n\<close>, THIN_AR exactly for one that starts with \<^verbatim>\<open>!<thin>\n\<close>, TEXT
  exactly when none of these four holds and the first four bytes exist and are
  printable, and UNKNOWN exactly when none of the five holds; \<^verbatim>\<open>read_file\<close> fails,
  with the unknown-file-type error that carries the blob's name, exactly on UNKNOWN.
\<close>

theorem get_file_type_classification:
  "(get_file_type mb = OBJ \<longleftrightarrow> elf_of_type mb ET_REL) \<and>
   (get_file_type mb = DSO \<longleftrightarrow> elf_of_type mb ET_DYN) \<and>
   (get_file_type mb = AR \<longleftrightarrow> starts_with_magic mb ar_magic) \<and>
   (get_file_type mb = THIN_AR \<longleftrightarrow> starts_with_magic mb thin_magic) \<and>
   (get_file_type mb = TEXT \<longleftrightarrow>
      \<not> elf_of_type mb ET_REL \<and> \<not> elf_of_type mb ET_DYN \<and>
      \<not> starts_with_magic mb ar_magic \<and> \<not> starts_with_magic mb thin_magic \<and>
      first_four_printable mb) \<and>
   (get_file_type mb = UNKNOWN \<longleftrightarrow>
      \<not> elf_of_type mb ET_REL \<and> \<not> elf_of_type mb ET_DYN \<and>
      \<not> starts_with_magic mb ar_magic \<and> \<not> starts_with_magic mb thin_magic \<and>
      \<not> first_four_printable mb) \<and>
   (read_file mb = Inl (UnknownFileType (mb_name mb)) \<longleftrightarrow> get_file_type mb = UNKNOWN) \<and>
   ((\<exists>e. read_file mb = Inl e) \<longleftrightarrow> get_file_type mb = UNKNOWN)"
proof -
  have ET: "ET_REL \<noteq> ET_DYN" by (simp add: ET_REL_def ET_DYN_def)
  have p1: "mb_size mb \<ge> 8 \<Longrightarrow> memcmp_eq (mb_data mb) ar_magic 8 \<Longrightarrow>
            \<not> (mb_size mb \<ge> 20 \<and> memcmp_eq (mb_data mb) elf_magic 4)"
    using elf_first[of "mb_data mb"] ar_first[of "mb_data mb"] by (auto simp: mb_size_def)
  have p2: "mb_size mb \<ge> 8 \<Longrightarrow> memcmp_eq (mb_data mb) thin_magic 8 \<Longrightarrow>
            \<not> (mb_size mb \<ge> 20 \<and> memcmp_eq (mb_data mb) elf_magic 4)"
    using elf_first[of "mb_data mb"] thin_first[of "mb_data mb"] by (auto simp: mb_size_def)
  show ?thesis
    unfolding first_four_printable_iff elf_of_type_def starts_with_magic_def
    using ET p1 p2 ar_not_thin[of "mb_data mb"] elf_not_text[of mb]
    by (auto simp: get_file_type_def read_file_def split: FileType.splits)
qed

section \<open>Verification: section rank\<close>

lemma rank_arith:
  "get_section_rank hdr =
     32 * of_bool (sh_flags hdr AND SHF_ALLOC = 0) +
     16 * of_bool (sh_flags hdr AND SHF_WRITE \<noteq> 0) +
     8 * of_bool (sh_flags hdr AND SHF_EXECINSTR \<noteq> 0) +
     4 * of_bool (sh_flags hdr AND SHF_TLS = 0) +
     of_bool (sh_type hdr = SHT_NOBITS)"
  by (simp add: get_section_rank_def Let_def of_bool_def)

lemma class_rank_less:
  "section_class_of a = Some ca \<Longrightarrow> section_class_of b = Some cb \<Longrightarrow>
   class_pos ca < class_pos cb \<Longrightarrow> get_section_rank a < get_section_rank b"
  unfolding rank_arith section_class_of_def Let_def
  by (auto simp: of_bool_def split: if_splits)

lemma class_rank_le:
  "section_class_of a = Some ca \<Longrightarrow> section_class_of b = Some cb \<Longrightarrow>
   get_section_rank a \<le> get_section_rank b \<Longrightarrow> class_pos ca \<le> class_pos cb"
  using class_rank_less[of b cb a ca] by force

lemma sort_chunks_ranks:
  assumes "i < j" "j < length cs"
  shows "get_section_rank (sort_chunks cs ! i) \<le> get_section_rank (sort_chunks cs ! j)"
proof -
  have s: "sorted (map get_section_rank (sort_chunks cs))"
    by (simp add: sort_chunks_def)
  have l: "length (sort_chunks cs) = length cs"
    by (simp add: sort_chunks_def)
  from assms l have "map get_section_rank (sort_chunks cs) ! i
      \<le> map get_section_rank (sort_chunks cs) ! j"
    using s by (intro sorted_nth_mono) simp_all
  with assms l show ?thesis by simp
qed

text \<open>
  Claim C6. The rank of a section header is
  \<open>32 * not-alloc + 16 * writable + 8 * exec + 4 * not-tls + nobits\<close>, the value of
  \<^verbatim>\<open>(!alloc << 5) | (writable << 4) | (exec << 3) | (!tls << 2) | nobits\<close>; of two
  headers that belong to different classes of the list (read-only data, read-only code,
  tdata, tbss, data, bss, non-allocated), the one of the earlier class has the strictly
  smaller rank; and after the sort by rank no chunk of a later class stands before a
  chunk of an earlier class, while the sort keeps the chunks it is given.
\<close>

theorem get_section_rank_orders_classes:
  "get_section_rank hdr =
     32 * of_bool (sh_flags hdr AND SHF_ALLOC = 0) +
     16 * of_bool (sh_flags hdr AND SHF_WRITE \<noteq> 0) +
     8 * of_bool (sh_flags hdr AND SHF_EXECINSTR \<noteq> 0) +
     4 * of_bool (sh_flags hdr AND SHF_TLS = 0) +
     of_bool (sh_type hdr = SHT_NOBITS) \<and>
   (section_class_of a = Some ca \<and> section_class_of b = Some cb \<and>
      class_pos ca < class_pos cb \<longrightarrow> get_section_rank a < get_section_rank b) \<and>
   mset (sort_chunks cs) = mset cs \<and>
   (i < j \<and> j < length cs \<and>
      section_class_of (sort_chunks cs ! i) = Some ci \<and>
      section_class_of (sort_chunks cs ! j) = Some cj \<longrightarrow> class_pos ci \<le> class_pos cj)"
proof (intro conjI impI)
  show "get_section_rank hdr =
     32 * of_bool (sh_flags hdr AND SHF_ALLOC = 0) +
     16 * of_bool (sh_flags hdr AND SHF_WRITE \<noteq> 0) +
     8 * of_bool (sh_flags hdr AND SHF_EXECINSTR \<noteq> 0) +
     4 * of_bool (sh_flags hdr AND SHF_TLS = 0) +
     of_bool (sh_type hdr = SHT_NOBITS)"
    by (rule rank_arith)
next
  assume "section_class_of a = Some ca \<and> section_class_of b = Some cb \<and>
      class_pos ca < class_pos cb"
  then show "get_section_rank a < get_section_rank b"
    using class_rank_less by blast
next
  show "mset (sort_chunks cs) = mset cs"
    by (simp add: sort_chunks_def)
next
  assume h: "i < j \<and> j < length cs \<and>
      section_class_of (sort_chunks cs ! i) = Some ci \<and>
      section_class_of (sort_chunks cs ! j) = Some cj"
  then have "get_section_rank (sort_chunks cs ! i) \<le> get_section_rank (sort_chunks cs ! j)"
    using sort_chunks_ranks by blast
  with h show "class_pos ci \<le> class_pos cj"
    using class_rank_le by blast
qed

lemma example_ranks:
  "get_section_rank ro_data_example = 4" "get_section_rank bss_example = 21"
  by (simp_all add: get_section_rank_def ro_data_example_def bss_example_def SHF_ALLOC_def
      SHF_WRITE_def SHF_EXECINSTR_def SHF_TLS_def SHT_NOBITS_def)

lemma example_classes:
  "section_class_of ro_data_example = Some AllocRoData"
  "section_class_of bss_example = Some AllocWrBss"
  by (simp_all add: section_class_of_def ro_data_example_def bss_example_def SHF_ALLOC_def
      SHF_WRITE_def SHF_EXECINSTR_def SHF_TLS_def SHT_NOBITS_def)

lemma example_sort:
  "sort_chunks [bss_example, ro_data_example] = [ro_data_example, bss_example]"
  by (simp add: sort_chunks_def example_ranks)

theorem get_section_rank_orders_classes_witness:
  "section_class_of ro_data_example = Some AllocRoData \<and>
   section_class_of bss_example = Some AllocWrBss \<and>
   class_pos AllocRoData < class_pos AllocWrBss \<and>
   get_section_rank ro_data_example < get_section_rank bss_example \<and>
   (0::nat) < 1 \<and> 1 < length [bss_example, ro_data_example] \<and>
   section_class_of (sort_chunks [bss_example, ro_data_example] ! 0) = Some AllocRoData \<and>
   section_class_of (sort_chunks [bss_example, ro_data_example] ! 1) = Some AllocWrBss \<and>
   class_pos AllocRoData \<le> class_pos AllocWrBss"
  using get_section_rank_orders_classes [where hdr = ro_data_example
      and a = ro_data_example and ca = AllocRoData
      and b = bss_example and cb = AllocWrBss and cs = "[bss_example, ro_data_example]"
      and i = 0 and j = 1 and ci = AllocRoData and cj = AllocWrBss]
  by (simp add: example_classes example_sort example_ranks)

section \<open>Verification: \<^verbatim>\<open>get_input_files\<close>\<close>

lemma get_input_files_empty: "get_input_files [] = Inl OutOfBounds"
  by (simp add: get_input_files_def get_input_files_body_def)

text \<open>
  Claim C9. For every non-empty argument list \<^verbatim>\<open>get_input_files\<close> returns the empty
  vector: the loop is guarded by \<^verbatim>\<open>args.empty()\<close>, so its body, which collects the
  positional arguments and the \<^verbatim>\<open>-l\<close> and \<^verbatim>\<open>-L\<close> options, does not run.
\<close>

theorem get_input_files_nonempty:
  "args \<noteq> [] \<Longrightarrow> get_input_files args = Inr []"
  by (simp add: get_input_files_def)

theorem get_input_files_nonempty_witness:
  "[''-o'', ''a.out'', ''main.o''] \<noteq> [] \<and>
   get_input_files [''-o'', ''a.out'', ''main.o''] = Inr []"
  using get_input_files_nonempty[of "[''-o'', ''a.out'', ''main.o'']"] by simp


section \<open>Verification: file priorities\<close>

lemma map_upt_from:
  "map (\<lambda>k. p + int k) [0 ..< Suc n] = p # map (\<lambda>k. p + 1 + int k) [0 ..< n]"
proof -
  have "map (\<lambda>k. p + int k) [0 ..< Suc n] =
      (p + int 0) # map (\<lambda>k. p + int (Suc k)) [0 ..< n]"
    by (rule map_upt_Suc)
  also have "\<dots> = p # map (\<lambda>k. p + 1 + int k) [0 ..< n]"
    by (simp add: algebra_simps)
  finally show ?thesis .
qed

lemma set_obj_priorities_result:
  "p + int (length (filter (\<lambda>f. is_in_archive f = b) fs)) \<le> INT_MAX \<Longrightarrow>
   \<exists>fs'. set_obj_priorities b fs p =
            Inr (fs', p + int (length (filter (\<lambda>f. is_in_archive f = b) fs))) \<and>
     length fs' = length fs \<and>
     map is_in_archive fs' = map is_in_archive fs \<and>
     map file_name fs' = map file_name fs \<and>
     filter (\<lambda>f. is_in_archive f \<noteq> b) fs' = filter (\<lambda>f. is_in_archive f \<noteq> b) fs \<and>
     map priority (filter (\<lambda>f. is_in_archive f = b) fs') =
       map (\<lambda>k. p + int k) [0 ..< length (filter (\<lambda>f. is_in_archive f = b) fs)]"
proof (induction fs arbitrary: p)
  case Nil
  then show ?case by simp
next
  case (Cons f fs)
  show ?case
  proof (cases "is_in_archive f = b")
    case True
    with Cons.prems have lt: "p \<noteq> INT_MAX"
      and b: "(p + 1) + int (length (filter (\<lambda>f. is_in_archive f = b) fs)) \<le> INT_MAX"
      by auto
    from Cons.IH[OF b] obtain fs' where
      h: "set_obj_priorities b fs (p + 1) =
            Inr (fs', p + 1 + int (length (filter (\<lambda>f. is_in_archive f = b) fs)))"
         "length fs' = length fs" "map is_in_archive fs' = map is_in_archive fs"
         "map file_name fs' = map file_name fs"
         "filter (\<lambda>f. is_in_archive f \<noteq> b) fs' = filter (\<lambda>f. is_in_archive f \<noteq> b) fs"
         "map priority (filter (\<lambda>f. is_in_archive f = b) fs') =
            map (\<lambda>k. p + 1 + int k) [0 ..< length (filter (\<lambda>f. is_in_archive f = b) fs)]"
      by blast
    show ?thesis
      using True lt h by (simp add: map_upt_from del: upt_Suc)
  next
    case False
    with Cons.prems have b: "p + int (length (filter (\<lambda>f. is_in_archive f = b) fs)) \<le> INT_MAX"
      by auto
    from Cons.IH[OF b] obtain fs' where
      h: "set_obj_priorities b fs p =
            Inr (fs', p + int (length (filter (\<lambda>f. is_in_archive f = b) fs)))"
         "length fs' = length fs" "map is_in_archive fs' = map is_in_archive fs"
         "map file_name fs' = map file_name fs"
         "filter (\<lambda>f. is_in_archive f \<noteq> b) fs' = filter (\<lambda>f. is_in_archive f \<noteq> b) fs"
         "map priority (filter (\<lambda>f. is_in_archive f = b) fs') =
            map (\<lambda>k. p + int k) [0 ..< length (filter (\<lambda>f. is_in_archive f = b) fs)]"
      by blast
    show ?thesis using False h by simp
  qed
qed

lemma set_dso_priorities_result:
  "p + int (length fs) \<le> INT_MAX \<Longrightarrow>
   \<exists>fs'. set_dso_priorities fs p = Inr (fs', p + int (length fs)) \<and>
     length fs' = length fs \<and> map soname fs' = map soname fs \<and>
     map file_name fs' = map file_name fs \<and>
     map priority fs' = map (\<lambda>k. p + int k) [0 ..< length fs]"
proof (induction fs arbitrary: p)
  case Nil
  then show ?case by simp
next
  case (Cons f fs)
  then have lt: "p \<noteq> INT_MAX" and b: "(p + 1) + int (length fs) \<le> INT_MAX" by auto
  from Cons.IH[OF b] obtain fs' where
    h: "set_dso_priorities fs (p + 1) = Inr (fs', p + 1 + int (length fs))"
       "length fs' = length fs" "map soname fs' = map soname fs"
       "map file_name fs' = map file_name fs"
       "map priority fs' = map (\<lambda>k. p + 1 + int k) [0 ..< length fs]"
    by blast
  show ?case using lt h by (simp add: map_upt_from del: upt_Suc)
qed

lemma upt_shift_append:
  "map (\<lambda>k. p + int k) [0 ..< a] @ map (\<lambda>k. p + int a + int k) [0 ..< b] =
   map (\<lambda>k. p + int k) [0 ..< a + b]"
  by (induction b) (simp_all add: add.assoc)

lemma filter_length_split:
  "length (filter (\<lambda>f. \<not> P f) xs) + length (filter P xs) = length xs"
  by (induction xs) auto


text \<open>
  Claim C8. When the counter stays within \<^verbatim>\<open>int\<close>, the priority loops succeed and
  the priorities of the object files outside archives (in list order), then of the
  object files from archives (in list order), then of the shared files (in list order)
  are \<open>2, 3, 4, \<dots>\<close> without a gap; so every object file outside an archive has a
  smaller priority than every archive member, every archive member a smaller priority
  than every shared file, and no file gets priority 1. Nothing else of a file changes.
\<close>

theorem set_priorities_consecutive:
  assumes fits: "2 + int (length objs) + int (length dsos) \<le> INT_MAX"
  shows "\<exists>objs' dsos'. set_priorities objs dsos = Inr (objs', dsos') \<and>
     map is_in_archive objs' = map is_in_archive objs \<and>
     map file_name objs' = map file_name objs \<and>
     map soname dsos' = map soname dsos \<and>
     map file_name dsos' = map file_name dsos \<and>
     map priority (filter (\<lambda>f. \<not> is_in_archive f) objs') @
       map priority (filter is_in_archive objs') @ map priority dsos' =
       map (\<lambda>k. 2 + int k) [0 ..< length objs + length dsos] \<and>
     (\<forall>a \<in> set objs'. \<forall>b \<in> set objs'.
        \<not> is_in_archive a \<and> is_in_archive b \<longrightarrow> priority a < priority b) \<and>
     (\<forall>b \<in> set objs'. \<forall>d \<in> set dsos'. is_in_archive b \<longrightarrow> priority b < priority d) \<and>
     (\<forall>a \<in> set objs'. \<forall>d \<in> set dsos'. priority a < priority d) \<and>
     (\<forall>a \<in> set objs'. 2 \<le> priority a)"
proof -
  define n1 where "n1 = length (filter (\<lambda>f. \<not> is_in_archive f) objs)"
  define n2 where "n2 = length (filter is_in_archive objs)"
  have n12: "n1 + n2 = length objs"
    unfolding n1_def n2_def by (rule filter_length_split)
  have b1: "2 + int (length (filter (\<lambda>f. is_in_archive f = False) objs)) \<le> INT_MAX"
    using fits n12 by (simp add: n1_def)
  from set_obj_priorities_result[OF b1] obtain objs1 where
    s1: "set_obj_priorities False objs 2 = Inr (objs1, 2 + int n1)"
      and a1: "map is_in_archive objs1 = map is_in_archive objs"
      and f1: "map file_name objs1 = map file_name objs"
      and k1: "filter is_in_archive objs1 = filter is_in_archive objs"
      and p1: "map priority (filter (\<lambda>f. \<not> is_in_archive f) objs1) =
                 map (\<lambda>k. 2 + int k) [0 ..< n1]"
    by (auto simp: n1_def)
  have c2: "length (filter (\<lambda>f. is_in_archive f = True) objs1) = n2"
    using k1 by (simp add: n2_def)
  have b2: "(2 + int n1) + int (length (filter (\<lambda>f. is_in_archive f = True) objs1)) \<le> INT_MAX"
    using fits n12 c2 by simp
  from set_obj_priorities_result[OF b2] obtain objs2 where
    s2: "set_obj_priorities True objs1 (2 + int n1) = Inr (objs2, 2 + int n1 + int n2)"
      and a2: "map is_in_archive objs2 = map is_in_archive objs1"
      and f2: "map file_name objs2 = map file_name objs1"
      and k2: "filter (\<lambda>f. \<not> is_in_archive f) objs2 = filter (\<lambda>f. \<not> is_in_archive f) objs1"
      and p2: "map priority (filter is_in_archive objs2) =
                 map (\<lambda>k. 2 + int n1 + int k) [0 ..< n2]"
    using c2 by auto
  have b3: "(2 + int n1 + int n2) + int (length dsos) \<le> INT_MAX"
    using fits n12 by simp
  from set_dso_priorities_result[OF b3] obtain dsos3 where
    s3: "set_dso_priorities dsos (2 + int n1 + int n2) =
           Inr (dsos3, 2 + int n1 + int n2 + int (length dsos))"
      and so3: "map soname dsos3 = map soname dsos"
      and f3: "map file_name dsos3 = map file_name dsos"
      and p3: "map priority dsos3 = map (\<lambda>k. 2 + int n1 + int n2 + int k) [0 ..< length dsos]"
    by auto
  have res: "set_priorities objs dsos = Inr (objs2, dsos3)"
    by (simp add: set_priorities_def s1 s2 s3)
  have q1: "map priority (filter (\<lambda>f. \<not> is_in_archive f) objs2) =
              map (\<lambda>k. 2 + int k) [0 ..< n1]"
    using k2 p1 by simp
  have "map (\<lambda>k. 2 + int k) [0 ..< n1] @ map (\<lambda>k. 2 + int n1 + int k) [0 ..< n2] @
        map (\<lambda>k. 2 + int n1 + int n2 + int k) [0 ..< length dsos] =
        map (\<lambda>k. 2 + int k) [0 ..< n1 + n2 + length dsos]"
  proof -
    have e1: "map (\<lambda>k. 2 + int k) [0 ..< n1] @ map (\<lambda>k. 2 + int n1 + int k) [0 ..< n2] =
        map (\<lambda>k. 2 + int k) [0 ..< n1 + n2]"
      by (rule upt_shift_append)
    have "(\<lambda>k. 2 + int n1 + int n2 + int k) = (\<lambda>k. 2 + int (n1 + n2) + int k)"
      by (simp add: add.assoc)
    then have e2: "map (\<lambda>k. 2 + int k) [0 ..< n1 + n2] @
        map (\<lambda>k. 2 + int n1 + int n2 + int k) [0 ..< length dsos] =
        map (\<lambda>k. 2 + int k) [0 ..< n1 + n2 + length dsos]"
      using upt_shift_append[of 2 "n1 + n2" "length dsos"] by simp
    show ?thesis
      unfolding append_assoc[symmetric] e1 e2 ..
  qed
  then have all: "map priority (filter (\<lambda>f. \<not> is_in_archive f) objs2) @
       map priority (filter is_in_archive objs2) @ map priority dsos3 =
       map (\<lambda>k. 2 + int k) [0 ..< length objs + length dsos]"
    using q1 p2 p3 n12 by simp
  have r1: "2 \<le> priority a \<and> priority a < 2 + int n1"
    if "a \<in> set objs2" "\<not> is_in_archive a" for a
  proof -
    from that have "priority a \<in> set (map priority (filter (\<lambda>f. \<not> is_in_archive f) objs2))"
      by simp
    then show ?thesis unfolding q1 by auto
  qed
  have r2: "2 + int n1 \<le> priority b \<and> priority b < 2 + int n1 + int n2"
    if "b \<in> set objs2" "is_in_archive b" for b
  proof -
    from that have "priority b \<in> set (map priority (filter is_in_archive objs2))"
      by simp
    then show ?thesis unfolding p2 by auto
  qed
  have r3: "2 + int n1 + int n2 \<le> priority d" if "d \<in> set dsos3" for d
  proof -
    from that have "priority d \<in> set (map priority dsos3)" by simp
    then show ?thesis unfolding p3 by auto
  qed
  have o1: "\<forall>a \<in> set objs2. \<forall>b \<in> set objs2.
        \<not> is_in_archive a \<and> is_in_archive b \<longrightarrow> priority a < priority b"
    using r1 r2 by fastforce
  have o2: "\<forall>b \<in> set objs2. \<forall>d \<in> set dsos3. is_in_archive b \<longrightarrow> priority b < priority d"
    using r2 r3 by fastforce
  have o3: "\<forall>a \<in> set objs2. \<forall>d \<in> set dsos3. priority a < priority d"
  proof (intro ballI)
    fix a d assume "a \<in> set objs2" "d \<in> set dsos3"
    then show "priority a < priority d"
      using r1[of a] r2[of a] r3[of d] by (cases "is_in_archive a") auto
  qed
  have o4: "\<forall>a \<in> set objs2. 2 \<le> priority a"
  proof
    fix a assume "a \<in> set objs2"
    then show "2 \<le> priority a" using r1[of a] r2[of a] by (cases "is_in_archive a") auto
  qed
  show ?thesis
    using res a1 a2 f1 f2 so3 f3 all o1 o2 o3 o4 by (intro exI conjI) simp_all
qed

lemma example_priorities: "set_priorities [main_o, libc_printf_o, util_o] [libm_so] =
   Inr ([main_o\<lparr>priority := 2\<rparr>, libc_printf_o\<lparr>priority := 4\<rparr>, util_o\<lparr>priority := 3\<rparr>],
        [libm_so\<lparr>priority := 5\<rparr>])"
  by (simp add: set_priorities_def main_o_def libc_printf_o_def util_o_def libm_so_def INT_MAX_def)

theorem set_priorities_consecutive_witness:
  "2 + int (length [main_o, libc_printf_o, util_o]) + int (length [libm_so]) \<le> INT_MAX \<and>
   set_priorities [main_o, libc_printf_o, util_o] [libm_so] =
     Inr ([main_o\<lparr>priority := 2\<rparr>, libc_printf_o\<lparr>priority := 4\<rparr>, util_o\<lparr>priority := 3\<rparr>],
          [libm_so\<lparr>priority := 5\<rparr>])"
  using set_priorities_consecutive[of "[main_o, libc_printf_o, util_o]" "[libm_so]"]
  by (simp add: example_priorities INT_MAX_def)

section \<open>Verification: \<^verbatim>\<open>split\<close>\<close>

lemma split_loop_zero: "split_loop 0 span vec = None"
proof -
  have "u \<noteq> 0" if "split_loop u span vec = Some y" for u y
    by (rule split_loop.raw_induct[where P = "\<lambda>u span vec y. u \<noteq> 0", OF _ that])
       (auto split: if_splits)
  then show ?thesis by (cases "split_loop 0 span vec") auto
qed

lemma split_loop_pos:
  "0 < u \<Longrightarrow> \<exists>r ws. split_loop u span vec = Some (r, vec @ ws) \<and> concat ws @ r = span \<and>
      (\<forall>w \<in> set ws. length w = u) \<and> length r < u"
proof (induction span arbitrary: vec rule: length_induct)
  case (1 span)
  show ?case
  proof (cases "u \<le> length span")
    case False
    then show ?thesis by (subst split_loop.simps) (auto intro: exI[of _ "[]"])
  next
    case True
    with 1(2) have "length (drop u span) < length span" by simp
    with 1 obtain r ws where
      h: "split_loop u (drop u span) ((vec @ [take u span]) ) = Some (r, (vec @ [take u span]) @ ws)"
        "concat ws @ r = drop u span" "\<forall>w \<in> set ws. length w = u" "length r < u"
      by blast
    have "split_loop u span vec = Some (r, vec @ (take u span # ws))"
      using True h(1) by (subst split_loop.simps) simp
    moreover have "concat (take u span # ws) @ r = span" using h(2) by simp
    moreover have "\<forall>w \<in> set (take u span # ws). length w = u" using h(3) True by simp
    ultimately show ?thesis using h(4) by blast
  qed
qed


lemma to_size_t_pos: "1 \<le> u \<Longrightarrow> u \<le> INT_MAX \<Longrightarrow> to_size_t u = nat u"
  by (simp add: to_size_t_def INT_MAX_def)

lemma to_size_t_neg: "- (2 ^ 31) \<le> u \<Longrightarrow> u < 0 \<Longrightarrow> to_size_t u = 2 ^ 64 - nat (- u)"
proof -
  assume a: "- (2 ^ 31) \<le> u" "u < 0"
  have "u mod 2 ^ 64 = (u + 2 ^ 64) mod 2 ^ 64" by simp
  also have "\<dots> = u + 2 ^ 64" using a by (intro mod_pos_pos_trivial) auto
  finally have "to_size_t u = nat (u + 2 ^ 64)" by (simp add: to_size_t_def)
  then show ?thesis using a by (simp; arith)
qed

lemma split_positive:
  assumes "0 < u" "input \<noteq> []"
  shows "\<exists>spans. (case split_loop u input [] of None \<Rightarrow> None
           | Some (span, vec) \<Rightarrow> Some (Inr (if span \<noteq> [] then vec @ [span] else vec)))
          = Some (Inr spans :: error + 'a list list) \<and>
      concat spans = input \<and> spans \<noteq> [] \<and>
      (\<forall>s \<in> set (butlast spans). length s = u) \<and>
      1 \<le> length (last spans) \<and> length (last spans) \<le> u"
proof -
  from split_loop_pos[OF assms(1), of input "[]"] obtain r ws where
    h: "split_loop u input [] = Some (r, ws)" "concat ws @ r = input"
       "\<forall>w \<in> set ws. length w = u" "length r < u"
    by auto
  show ?thesis
  proof (cases "r = []")
    case True
    with h(2) assms(2) have ne: "ws \<noteq> []" by auto
    then have "last ws \<in> set ws" by simp
    with h(3) have "length (last ws) = u" by blast
    moreover have "\<forall>s \<in> set (butlast ws). length s = u"
      using h(3) by (meson in_set_butlastD)
    ultimately show ?thesis using True h assms ne by simp
  next
    case False
    then have "1 \<le> length r" by (cases r) auto
    then show ?thesis using False h by simp
  qed
qed

text \<open>
  Claim C10, as amended. For a \<^verbatim>\<open>unit\<close> in the range of \<^verbatim>\<open>int\<close>: \<^verbatim>\<open>split\<close>
  returns on every input exactly when \<open>unit \<noteq> 0\<close>. For \<open>unit \<ge> 1\<close> and a non-empty
  input the spans, concatenated in order, are the input, every span but the last has
  length \<open>unit\<close> and the last has a length between 1 and \<open>unit\<close>. A negative
  \<open>unit\<close> is converted to a \<^verbatim>\<open>size_t\<close> above the size of the input, the loop does
  not run and \<^verbatim>\<open>split\<close> returns the whole input as one span. For \<open>unit = 0\<close>, the
  value \<^verbatim>\<open>bin_sections\<close> computes for an empty object list, the loop does not end on
  a non-empty input; on the empty input the assertion fails, for every \<open>unit\<close>.
\<close>

theorem split_terminates_iff_unit_nonzero:
  assumes "- (2 ^ 31) \<le> unit" "unit \<le> INT_MAX"
  shows "((\<forall>input :: 'a list. split input unit \<noteq> None) \<longleftrightarrow> unit \<noteq> 0) \<and>
    (1 \<le> unit \<and> inp \<noteq> [] \<longrightarrow>
       (\<exists>spans. split inp unit = Some (Inr spans) \<and> concat spans = inp \<and> spans \<noteq> [] \<and>
          (\<forall>s \<in> set (butlast spans). int (length s) = unit) \<and>
          1 \<le> length (last spans) \<and> int (length (last spans)) \<le> unit)) \<and>
    (unit < 0 \<and> inp \<noteq> [] \<and> length inp < 2 ^ 63 \<longrightarrow> split inp unit = Some (Inr [inp])) \<and>
    (inp \<noteq> [] \<longrightarrow> split inp 0 = None) \<and>
    split ([] :: 'a list) unit = Some (Inl AssertionFailed) \<and>
    bin_sections_unit 0 = 0"
proof (intro conjI impI)
  show "(\<forall>input :: 'a list. split input unit \<noteq> None) \<longleftrightarrow> unit \<noteq> 0"
  proof
    assume a: "\<forall>input :: 'a list. split input unit \<noteq> None"
    show "unit \<noteq> 0"
    proof
      assume "unit = 0"
      then have "split [undefined :: 'a] unit = None"
        by (simp add: split_def to_size_t_def split_loop_zero)
      with a show False by blast
    qed
  next
    assume nz: "unit \<noteq> 0"
    have pos: "0 < to_size_t unit"
    proof (cases "1 \<le> unit")
      case True
      then show ?thesis using assms by (simp add: to_size_t_pos)
    next
      case False
      with nz have "unit < 0" by simp
      then show ?thesis using assms by (simp add: to_size_t_neg INT_MAX_def)
    qed
    show "\<forall>input :: 'a list. split input unit \<noteq> None"
    proof
      fix input :: "'a list"
      show "split input unit \<noteq> None"
      proof (cases "input = []")
        case True
        then show ?thesis by (simp add: split_def)
      next
        case False
        from split_positive[OF pos False] show ?thesis
          using False by (auto simp: split_def)
      qed
    qed
  qed
next
  assume a: "1 \<le> unit \<and> inp \<noteq> []"
  then have u: "to_size_t unit = nat unit" "0 < nat unit" using assms by (simp_all add: to_size_t_pos)
  from split_positive[OF u(2), of inp] a obtain spans where
    "split inp unit = Some (Inr spans)" "concat spans = inp" "spans \<noteq> []"
    "\<forall>s \<in> set (butlast spans). length s = nat unit"
    "1 \<le> length (last spans)" "length (last spans) \<le> nat unit"
    by (auto simp: split_def u)
  then show "\<exists>spans. split inp unit = Some (Inr spans) \<and> concat spans = inp \<and> spans \<noteq> [] \<and>
          (\<forall>s \<in> set (butlast spans). int (length s) = unit) \<and>
          1 \<le> length (last spans) \<and> int (length (last spans)) \<le> unit"
    using a by (intro exI[of _ spans]) auto
next
  assume a: "unit < 0 \<and> inp \<noteq> [] \<and> length inp < 2 ^ 63"
  then have "to_size_t unit = 2 ^ 64 - nat (- unit)" using assms by (simp add: to_size_t_neg)
  moreover have "nat (- unit) \<le> 2 ^ 31" using assms a by simp
  ultimately have "length inp < to_size_t unit" using a by (simp; arith)
  then show "split inp unit = Some (Inr [inp])"
    using a by (simp add: split_def split_loop.simps)
next
  assume "inp \<noteq> []"
  then show "split inp 0 = None"
    by (simp add: split_def to_size_t_def split_loop_zero)
next
  show "split ([] :: 'a list) unit = Some (Inl AssertionFailed)"
    by (simp add: split_def)
next
  show "bin_sections_unit 0 = 0"
    by (simp add: bin_sections_unit_def u64_def to_int_def)
qed

text \<open>
  With \<open>unit = -1\<close> the run returns, although \<open>unit < 1\<close>.
\<close>

theorem split_negative_unit_returns:
  "split [0 :: nat] (- 1) = Some (Inr [[0]]) \<and> \<not> (1 :: int) \<le> - 1"
  by (simp add: split_def to_size_t_def split_loop.simps)

theorem split_terminates_iff_unit_nonzero_witness:
  "- (2 ^ 31) \<le> (2 :: int) \<and> (2 :: int) \<le> INT_MAX \<and> [1, 2, 3 :: nat] \<noteq> [] \<and>
   split [1, 2, 3 :: nat] 2 = Some (Inr [[1, 2], [3]]) \<and>
   split [1, 2, 3 :: nat] 0 = None"
proof -
  have e: "split [1, 2, 3 :: nat] 2 = Some (Inr [[1, 2], [3]])"
    by (simp add: split_def to_size_t_def split_loop.simps)
  have b: "- (2 ^ 31) \<le> (2 :: int)" "(2 :: int) \<le> INT_MAX"
    by (simp_all add: INT_MAX_def)
  from split_terminates_iff_unit_nonzero[OF b, where inp = "[1, 2, 3 :: nat]"]
  have "split [1, 2, 3 :: nat] 0 = None" by blast
  with e b show ?thesis by simp
qed

section \<open>Verification: \<^verbatim>\<open>set_osec_offsets\<close>\<close>

lemma div_step: "0 < a \<Longrightarrow> r < a \<Longrightarrow> (q * a + r) div a = (q :: nat)"
  by simp

lemma round_up_eq:
  assumes "0 < a"
  shows "round_up x a = x + (if x mod a = 0 then 0 else a - x mod a)"
proof -
  define q where "q = x div a"
  define r where "r = x mod a"
  have x: "x = q * a + r" by (simp add: q_def r_def)
  have r: "r < a" using assms by (simp add: r_def)
  show ?thesis
  proof (cases "r = 0")
    case True
    have e: "x + a - 1 = q * a + (a - 1)" using True x assms by simp
    have "a - 1 < a" using assms by simp
    then have "(q * a + (a - 1)) div a = q" using assms by (rule div_step[rotated])
    then have "(x + a - 1) div a = q" unfolding e .
    then have "round_up x a = q * a" by (simp add: round_up_def)
    also have "\<dots> = x" using x True by simp
    finally show ?thesis using True[unfolded r_def] by simp
  next
    case False
    then have e: "x + a - 1 = (q + 1) * a + (r - 1)" using x by (simp add: algebra_simps)
    have "r - 1 < a" using r by simp
    then have "((q + 1) * a + (r - 1)) div a = q + 1" using assms by (rule div_step[rotated])
    then have "(x + a - 1) div a = q + 1" unfolding e .
    then have "round_up x a = q * a + a" by (simp add: round_up_def)
    also have "\<dots> = x + (a - r)" using x r by simp
    finally show ?thesis using False[unfolded r_def] unfolding r_def by simp
  qed
qed

lemma round_up_ge: "0 < a \<Longrightarrow> x \<le> round_up x a"
  by (simp add: round_up_eq)

lemma round_up_lt: "0 < a \<Longrightarrow> round_up x a < x + a"
  by (auto simp add: round_up_eq)

lemma round_up_dvd: "a dvd round_up x a"
  by (simp add: round_up_def)

lemma round_up_cong:
  assumes "0 < a" "a dvd p" "x mod p = y mod p"
  shows "round_up x a mod p = round_up y a mod p"
proof -
  have "x mod p mod a = x mod a" "y mod p mod a = y mod a"
    using assms(2) by (simp_all add: mod_mod_cancel)
  then have "x mod a = y mod a"
    using assms(3) by simp
  then obtain d where "round_up x a = x + d" "round_up y a = y + d"
    using assms(1) by (simp add: round_up_eq)
  then show ?thesis using assms(3) mod_add_cong[of x p y d d] by simp
qed

lemma align_to_round_up: "align_to x a = u64 (round_up x a)"
  by (simp add: align_to_def round_up_def)

lemma u64_id: "n < 2 ^ 64 \<Longrightarrow> u64 n = n"
  by (simp add: u64_def)


lemma osec_step_exact:
  assumes pg: "0 < page" and al: "0 < sh_addralign (shdr c)"
    and fb: "fileoff + (page + sh_addralign (shdr c) + sh_size (shdr c)) < 2 ^ 64"
    and vb: "vaddr + (page + sh_addralign (shdr c) + sh_size (shdr c)) < 2 ^ 64"
  shows "\<exists>fo va. osec_step page fileoff vaddr c =
           (c\<lparr>shdr := (shdr c)\<lparr>sh_offset := fo,
                sh_addr := (if is_alloc c then va else sh_addr (shdr c))\<rparr>\<rparr>,
            fo + (if is_bss c then 0 else sh_size (shdr c)),
            va + (if is_tbss c then 0 else sh_size (shdr c))) \<and>
          fileoff \<le> fo \<and> fo < fileoff + page + sh_addralign (shdr c) \<and>
          vaddr \<le> va \<and> va < vaddr + page + sh_addralign (shdr c) \<and>
          (sh_addralign (shdr c) dvd page \<longrightarrow> va mod page = fo mod page) \<and>
          spec_place page fileoff vaddr c = (fo, va)"
proof -
  define a where "a = sh_addralign (shdr c)"
  define sz where "sz = sh_size (shdr c)"
  define v1 where "v1 = (if starts_new_ptload c then round_up vaddr page else vaddr)"
  define f1 where "f1 =
     (if v1 mod page > fileoff mod page then fileoff + (v1 mod page - fileoff mod page)
      else if v1 mod page < fileoff mod page then round_up fileoff page + v1 mod page
      else fileoff)"
  define fo where "fo = round_up f1 a"
  define va where "va = round_up v1 a"
  have a0: "0 < a" using al by (simp add: a_def)
  have fb': "fileoff + (page + a + sz) < 2 ^ 64" using fb by (simp add: a_def sz_def)
  have vb': "vaddr + (page + a + sz) < 2 ^ 64" using vb by (simp add: a_def sz_def)
  have v1b: "vaddr \<le> v1" "v1 < vaddr + page"
    using round_up_ge[OF pg, of vaddr] round_up_lt[OF pg, of vaddr] pg by (auto simp: v1_def)
  have mp: "v1 mod page < page" "fileoff mod page < page" using pg by simp_all
  have f1b: "fileoff \<le> f1 \<and> f1 < fileoff + page \<and> f1 mod page = v1 mod page"
  proof (cases "v1 mod page > fileoff mod page")
    case True
    then have e: "f1 = fileoff + (v1 mod page - fileoff mod page)" by (simp add: f1_def)
    have "f1 mod page = (fileoff mod page + (v1 mod page - fileoff mod page)) mod page"
      unfolding e by (simp add: mod_add_left_eq)
    also have "\<dots> = v1 mod page" using True by simp
    finally have m: "f1 mod page = v1 mod page" .
    have "fileoff \<le> f1" "f1 < fileoff + page" using e mp True by linarith+
    with m show ?thesis by simp
  next
    case False
    show ?thesis
    proof (cases "v1 mod page < fileoff mod page")
      case True
      then have e: "f1 = round_up fileoff page + v1 mod page" by (simp add: f1_def)
      have nz: "fileoff mod page \<noteq> 0" using True by simp
      have r: "round_up fileoff page = fileoff + (page - fileoff mod page)"
        using nz by (simp add: round_up_eq[OF pg])
      have "page dvd round_up fileoff page" by (rule round_up_dvd)
      then obtain k where k: "round_up fileoff page = page * k" by (auto elim: dvdE)
      have m: "f1 mod page = v1 mod page" unfolding e k by simp
      have "fileoff mod page \<le> fileoff" by (rule mod_less_eq_dividend)
      then have "fileoff \<le> f1" "f1 < fileoff + page" using e r mp True by linarith+
      with m show ?thesis by simp
    next
      case F2: False
      with False have "f1 = fileoff" "v1 mod page = fileoff mod page" by (simp_all add: f1_def)
      then show ?thesis using pg by simp
    qed
  qed
  have fob: "f1 \<le> fo" "fo < f1 + a"
    using round_up_ge[OF a0, of f1] round_up_lt[OF a0, of f1] by (simp_all add: fo_def)
  have vab: "v1 \<le> va" "va < v1 + a"
    using round_up_ge[OF a0, of v1] round_up_lt[OF a0, of v1] by (simp_all add: va_def)
  have cong: "a dvd page \<Longrightarrow> va mod page = fo mod page"
    unfolding va_def fo_def using round_up_cong[OF a0, of page v1 f1] f1b by simp
  have small: "round_up vaddr page < 2 ^ 64" "round_up fileoff page < 2 ^ 64"
      "fileoff + (v1 mod page - fileoff mod page) < 2 ^ 64"
      "v1 mod page < fileoff mod page \<Longrightarrow> round_up fileoff page + v1 mod page < 2 ^ 64"
      "fo < 2 ^ 64" "va < 2 ^ 64" "fo + sz < 2 ^ 64" "va + sz < 2 ^ 64"
    using round_up_lt[OF pg, of vaddr] round_up_lt[OF pg, of fileoff] fb' vb' v1b f1b fob vab mp
      a0 by (auto simp: f1_def split: if_splits)
  have av: "(if starts_new_ptload c then align_to vaddr page else vaddr) = v1"
    using small by (simp add: v1_def align_to_round_up u64_id)
  have af: "(if v1 mod page > fileoff mod page then
               u64 (fileoff + (v1 mod page - fileoff mod page))
             else if v1 mod page < fileoff mod page then
               u64 (align_to fileoff page + v1 mod page)
             else fileoff) = f1"
    using small by (simp add: f1_def align_to_round_up u64_id)
  have afo: "align_to f1 (sh_addralign (shdr c)) = fo"
    using small by (simp add: fo_def a_def align_to_round_up u64_id)
  have ava: "align_to v1 (sh_addralign (shdr c)) = va"
    using small by (simp add: va_def a_def align_to_round_up u64_id)
  have step: "osec_step page fileoff vaddr c =
           (c\<lparr>shdr := (shdr c)\<lparr>sh_offset := fo,
                sh_addr := (if is_alloc c then va else sh_addr (shdr c))\<rparr>\<rparr>,
            fo + (if is_bss c then 0 else sh_size (shdr c)),
            va + (if is_tbss c then 0 else sh_size (shdr c)))"
    unfolding osec_step_def Let_def av af afo ava
    using small by (simp add: u64_id sz_def)
  have sp: "spec_place page fileoff vaddr c = (fo, va)"
    by (simp add: spec_place_def Let_def v1_def f1_def fo_def va_def a_def)
  show ?thesis
    using step v1b f1b fob vab cong sp by (intro exI[of _ fo] exI[of _ va]) (auto simp: a_def)
qed

lemma layout_extent_Cons:
  "layout_extent page (c # cs) =
     page + sh_addralign (shdr c) + sh_size (shdr c) + layout_extent page cs"
  by (simp add: layout_extent_def)

lemma chunk_preds_update:
  "is_alloc (c\<lparr>shdr := (shdr c)\<lparr>sh_offset := fo, sh_addr := x\<rparr>\<rparr>) = is_alloc c"
  "is_bss (c\<lparr>shdr := (shdr c)\<lparr>sh_offset := fo, sh_addr := x\<rparr>\<rparr>) = is_bss c"
  "is_tbss (c\<lparr>shdr := (shdr c)\<lparr>sh_offset := fo, sh_addr := x\<rparr>\<rparr>) = is_tbss c"
  by (simp_all add: is_alloc_def is_bss_def is_tbss_def)

lemma addr_ordered_mono: "addr_ordered lo cs \<Longrightarrow> lo' \<le> lo \<Longrightarrow> addr_ordered lo' cs"
  by (induction cs arbitrary: lo lo') auto

lemma set_osec_offsets_loop_layout:
  assumes pg: "0 < page"
  shows "(\<forall>c \<in> set chunks. 0 < sh_addralign (shdr c)) \<Longrightarrow>
    fileoff + layout_extent page chunks < 2 ^ 64 \<Longrightarrow>
    vaddr + layout_extent page chunks < 2 ^ 64 \<Longrightarrow>
    \<exists>chunks' r. set_osec_offsets_loop page fileoff vaddr chunks = (chunks', r) \<and>
      length chunks' = length chunks \<and>
      (\<forall>c \<in> set chunks'. fileoff \<le> sh_offset (shdr c)) \<and>
      (\<forall>c \<in> set chunks'. is_alloc c \<longrightarrow> vaddr \<le> sh_addr (shdr c)) \<and>
      file_ordered chunks' \<and>
      addr_ordered vaddr chunks' \<and>
      r = (if chunks = [] then fileoff else chunk_end (last chunks')) \<and>
      fileoff \<le> r \<and> r \<le> fileoff + layout_extent page chunks \<and>
      sorted (map (\<lambda>c. sh_offset (shdr c)) chunks') \<and>
      sorted (map (\<lambda>c. sh_addr (shdr c)) (filter is_alloc chunks')) \<and>
      (\<forall>c \<in> set chunks'. is_alloc c \<and> sh_addralign (shdr c) dvd page \<longrightarrow>
         sh_addr (shdr c) mod page = sh_offset (shdr c) mod page) \<and>
      map chunk_name chunks' = map chunk_name chunks \<and>
      map (\<lambda>c. sh_size (shdr c)) chunks' = map (\<lambda>c. sh_size (shdr c)) chunks \<and>
      map (\<lambda>c. sh_addralign (shdr c)) chunks' = map (\<lambda>c. sh_addralign (shdr c)) chunks \<and>
      map is_alloc chunks' = map is_alloc chunks \<and>
      map is_bss chunks' = map is_bss chunks \<and>
      spec_layout page fileoff vaddr chunks = (chunks', r)"
proof (induction chunks arbitrary: fileoff vaddr)
  case Nil
  then show ?case by simp
next
  case (Cons c cs)
  define E where "E = page + sh_addralign (shdr c) + sh_size (shdr c)"
  define R where "R = layout_extent page cs"
  have ext: "layout_extent page (c # cs) = E + R"
    by (simp add: layout_extent_Cons E_def R_def)
  have al: "0 < sh_addralign (shdr c)" using Cons.prems(1) by simp
  have fb: "fileoff + (page + sh_addralign (shdr c) + sh_size (shdr c)) < 2 ^ 64"
    using Cons.prems(2) unfolding ext E_def by simp
  have vb: "vaddr + (page + sh_addralign (shdr c) + sh_size (shdr c)) < 2 ^ 64"
    using Cons.prems(3) unfolding ext E_def by simp
  from osec_step_exact[OF pg al fb vb] obtain fo va where
    step: "osec_step page fileoff vaddr c =
           (c\<lparr>shdr := (shdr c)\<lparr>sh_offset := fo,
                sh_addr := (if is_alloc c then va else sh_addr (shdr c))\<rparr>\<rparr>,
            fo + (if is_bss c then 0 else sh_size (shdr c)),
            va + (if is_tbss c then 0 else sh_size (shdr c)))"
    and fob: "fileoff \<le> fo" "fo < fileoff + page + sh_addralign (shdr c)"
    and vab: "vaddr \<le> va" "va < vaddr + page + sh_addralign (shdr c)"
    and cong: "sh_addralign (shdr c) dvd page \<longrightarrow> va mod page = fo mod page"
    and place: "spec_place page fileoff vaddr c = (fo, va)"
    by blast
  define c' where "c' = c\<lparr>shdr := (shdr c)\<lparr>sh_offset := fo,
                sh_addr := (if is_alloc c then va else sh_addr (shdr c))\<rparr>\<rparr>"
  define f' where "f' = fo + (if is_bss c then 0 else sh_size (shdr c))"
  define v' where "v' = va + (if is_tbss c then 0 else sh_size (shdr c))"
  have c'p: "is_alloc c' = is_alloc c" "is_bss c' = is_bss c" "is_tbss c' = is_tbss c"
    unfolding c'_def by (rule chunk_preds_update)+
  have c'f: "sh_offset (shdr c') = fo" "sh_size (shdr c') = sh_size (shdr c)"
    "sh_addralign (shdr c') = sh_addralign (shdr c)" "chunk_name c' = chunk_name c"
    "is_alloc c \<Longrightarrow> sh_addr (shdr c') = va"
    by (simp_all add: c'_def)
  have ce: "chunk_end c' = f'" "is_alloc c \<Longrightarrow> chunk_addr_end c' = v'"
    by (simp_all add: chunk_end_def chunk_addr_end_def c'p c'f f'_def v'_def)
  have f'b: "fo \<le> f'" "f' \<le> fileoff + E" "f' + R < 2 ^ 64"
    using fob Cons.prems(2) unfolding ext f'_def E_def by auto
  have v'b: "va \<le> v'" "v' + R < 2 ^ 64"
    using vab Cons.prems(3) unfolding ext v'_def E_def by auto
  have "\<forall>c \<in> set cs. 0 < sh_addralign (shdr c)" using Cons.prems(1) by simp
  from Cons.IH[OF this f'b(3)[unfolded R_def] v'b(2)[unfolded R_def]]
  obtain cs' r where
    loop: "set_osec_offsets_loop page f' v' cs = (cs', r)"
    and len: "length cs' = length cs"
    and lo: "\<forall>c \<in> set cs'. f' \<le> sh_offset (shdr c)"
    and lov: "\<forall>c \<in> set cs'. is_alloc c \<longrightarrow> v' \<le> sh_addr (shdr c)"
    and fo': "file_ordered cs'"
    and ao: "addr_ordered v' cs'"
    and r: "r = (if cs = [] then f' else chunk_end (last cs'))"
    and rb: "f' \<le> r" "r \<le> f' + layout_extent page cs"
    and so: "sorted (map (\<lambda>c. sh_offset (shdr c)) cs')"
    and sa: "sorted (map (\<lambda>c. sh_addr (shdr c)) (filter is_alloc cs'))"
    and cg: "\<forall>c \<in> set cs'. is_alloc c \<and> sh_addralign (shdr c) dvd page \<longrightarrow>
         sh_addr (shdr c) mod page = sh_offset (shdr c) mod page"
    and nm: "map chunk_name cs' = map chunk_name cs"
    and sz: "map (\<lambda>c. sh_size (shdr c)) cs' = map (\<lambda>c. sh_size (shdr c)) cs"
    and sal: "map (\<lambda>c. sh_addralign (shdr c)) cs' = map (\<lambda>c. sh_addralign (shdr c)) cs"
    and mal: "map is_alloc cs' = map is_alloc cs"
    and mbs: "map is_bss cs' = map is_bss cs"
    and spc: "spec_layout page f' v' cs = (cs', r)"
    by blast
  have res: "set_osec_offsets_loop page fileoff vaddr (c # cs) = (c' # cs', r)"
    using step loop by (simp add: c'_def f'_def v'_def)
  have g10: "spec_layout page fileoff vaddr (c # cs) = (c' # cs', r)"
    using place spc by (simp add: c'_def f'_def v'_def)
  have emp: "cs' = [] \<longleftrightarrow> cs = []" using len by auto
  have g1: "\<forall>x \<in> set (c' # cs'). fileoff \<le> sh_offset (shdr x)"
    using lo fob f'b c'f by fastforce
  have g2: "\<forall>x \<in> set (c' # cs'). is_alloc x \<longrightarrow> vaddr \<le> sh_addr (shdr x)"
    using lov vab v'b c'f c'p by fastforce
  have g3: "file_ordered (c' # cs')"
  proof (cases cs')
    case Nil
    then show ?thesis by simp
  next
    case (Cons b bs)
    then have "f' \<le> sh_offset (shdr b)" using lo by simp
    then show ?thesis using Cons fo' ce by simp
  qed
  have g4: "addr_ordered vaddr (c' # cs')"
  proof (cases "is_alloc c")
    case True
    then show ?thesis using ao ce c'f c'p vab by simp
  next
    case False
    have "vaddr \<le> v'" using vab v'b by simp
    from addr_ordered_mono[OF ao this] show ?thesis using False c'p by simp
  qed
  have g5: "r = (if c # cs = [] then fileoff else chunk_end (last (c' # cs')))"
    using r ce emp by simp
  have g6: "fileoff \<le> r" "r \<le> fileoff + layout_extent page (c # cs)"
    using rb f'b fob unfolding ext R_def by simp_all
  have g7: "sorted (map (\<lambda>c. sh_offset (shdr c)) (c' # cs'))"
    using so lo f'b c'f by fastforce
  have g8: "sorted (map (\<lambda>c. sh_addr (shdr c)) (filter is_alloc (c' # cs')))"
    using sa lov v'b c'f c'p by fastforce
  have g9: "\<forall>x \<in> set (c' # cs'). is_alloc x \<and> sh_addralign (shdr x) dvd page \<longrightarrow>
         sh_addr (shdr x) mod page = sh_offset (shdr x) mod page"
    using cg cong c'f c'p by auto
  show ?case
    using res len g1 g2 g3 g4 g5 g6 g7 g8 g9 g10 nm sz sal mal mbs c'f c'p
    by (intro exI[of _ "c' # cs'"] exI[of _ r] conjI) simp_all
qed

text \<open>
  Claim C2, as amended. Let every chunk have an alignment of at least 1 and let
  \<open>image_base\<close> plus, per chunk, one page, the alignment and the size stay below
  \<open>2^64\<close>, so that no offset or address wraps around. Then after
  \<^verbatim>\<open>set_osec_offsets\<close> the \<open>sh_offset\<close> values are non-decreasing in chunk order, the
  \<open>sh_addr\<close> values are non-decreasing among the \<^verbatim>\<open>SHF_ALLOC\<close> chunks, and
  \<open>sh_addr mod PAGE_SIZE = sh_offset mod PAGE_SIZE\<close> for every \<^verbatim>\<open>SHF_ALLOC\<close> chunk
  whose alignment divides the page size. The running file offset advances by
  \<open>sh_size\<close> unless the chunk is \<^verbatim>\<open>SHT_NOBITS\<close> (each chunk's logical end is at most
  the next chunk's offset), the running address advances by \<open>sh_size\<close> unless the
  chunk is both \<^verbatim>\<open>SHT_NOBITS\<close> and \<^verbatim>\<open>SHF_TLS\<close>, and the returned value is the
  logical end of the last chunk; it is the size with which \<^verbatim>\<open>main\<close> opens the output
  buffer and calls \<^verbatim>\<open>clear_padding\<close>. The chunks and the returned value are exactly
  those of \<open>spec_layout\<close>, the steps of the specification computed without a bound:
  every offset and address is the one these steps give, with the two advances as they
  are stated, and nothing else of a chunk changes.
\<close>

theorem set_osec_offsets_layout:
  assumes "0 < page" and "\<forall>c \<in> set chunks. 0 < sh_addralign (shdr c)"
    and "image_base + layout_extent page chunks < 2 ^ 64"
  shows "\<exists>chunks' filesize. set_osec_offsets page image_base chunks = (chunks', filesize) \<and>
      length chunks' = length chunks \<and>
      sorted (map (\<lambda>c. sh_offset (shdr c)) chunks') \<and>
      sorted (map (\<lambda>c. sh_addr (shdr c)) (filter is_alloc chunks')) \<and>
      (\<forall>c \<in> set chunks'. is_alloc c \<and> sh_addralign (shdr c) dvd page \<longrightarrow>
         sh_addr (shdr c) mod page = sh_offset (shdr c) mod page) \<and>
      file_ordered chunks' \<and>
      addr_ordered image_base chunks' \<and>
      filesize = (if chunks = [] then 0 else chunk_end (last chunks')) \<and>
      spec_layout page 0 image_base chunks = (chunks', filesize) \<and>
      write_output page image_base filler mapped copy_buf chunks =
        clear_padding filesize chunks'
          (foldl (\<lambda>b c. copy_buf c b) (OutputFile_open filler filesize mapped) chunks')"
proof -
  have "0 + layout_extent page chunks < 2 ^ 64" using assms(3) by simp
  from set_osec_offsets_loop_layout[OF assms(1,2) this assms(3)]
  obtain chunks' r where
    h: "set_osec_offsets_loop page 0 image_base chunks = (chunks', r)"
      "length chunks' = length chunks"
      "file_ordered chunks'" "addr_ordered image_base chunks'"
      "r = (if chunks = [] then 0 else chunk_end (last chunks'))"
      "sorted (map (\<lambda>c. sh_offset (shdr c)) chunks')"
      "sorted (map (\<lambda>c. sh_addr (shdr c)) (filter is_alloc chunks'))"
      "\<forall>c \<in> set chunks'. is_alloc c \<and> sh_addralign (shdr c) dvd page \<longrightarrow>
         sh_addr (shdr c) mod page = sh_offset (shdr c) mod page"
      "spec_layout page 0 image_base chunks = (chunks', r)"
    by blast
  have "write_output page image_base filler mapped copy_buf chunks =
        clear_padding r chunks'
          (foldl (\<lambda>b c. copy_buf c b) (OutputFile_open filler r mapped) chunks')"
    using h(1) by (simp add: write_output_def set_osec_offsets_def Let_def)
  then show ?thesis
    using h by (intro exI[of _ chunks'] exI[of _ r]) (simp add: set_osec_offsets_def)
qed

lemma align_to_examples:
  "align_to 0x200000 4096 = 0x200000" "align_to 0 8 = 0" "align_to 0x200000 8 = 0x200000"
  "align_to 0x200040 4096 = 0x201000" "align_to 64 4096 = 4096" "align_to 4096 16 = 4096"
  "align_to 0x201000 16 = 0x201000" "align_to 0 16 = 0" "align_to 0x200000 16 = 0x200000"
  by (simp_all add: align_to_def u64_def)

lemmas chunk_eval = osec_step_def Let_def mk_chunk_def align_to_examples u64_def is_alloc_def
  is_bss_def is_tbss_def SHF_ALLOC_def SHT_NOBITS_def SHF_TLS_def

lemma huge_bss_step1:
  "osec_step 4096 0 0x200000 (mk_chunk ''.bss'' 8 0x3 0xFFFFFFFFFFE00000 16 False) =
     (\<lparr>chunk_name = ''.bss'',
       shdr = \<lparr>sh_type = 8, sh_flags = 0x3, sh_addr = 0x200000, sh_offset = 0,
               sh_size = 0xFFFFFFFFFFE00000, sh_addralign = 16\<rparr>,
       starts_new_ptload = False\<rparr>, 0, 0)"
  by (simp add: chunk_eval)

lemma huge_bss_step2:
  "osec_step 4096 0 0 (mk_chunk ''.lbss'' 8 0x3 16 16 False) =
     (\<lparr>chunk_name = ''.lbss'',
       shdr = \<lparr>sh_type = 8, sh_flags = 0x3, sh_addr = 0, sh_offset = 0,
               sh_size = 16, sh_addralign = 16\<rparr>,
       starts_new_ptload = False\<rparr>, 0, 16)"
  by (simp add: chunk_eval)

lemma huge_bss_layout:
  "set_osec_offsets 4096 0x200000 huge_bss_chunks =
     ([\<lparr>chunk_name = ''.bss'',
        shdr = \<lparr>sh_type = 8, sh_flags = 0x3, sh_addr = 0x200000, sh_offset = 0,
               sh_size = 0xFFFFFFFFFFE00000, sh_addralign = 16\<rparr>,
        starts_new_ptload = False\<rparr>,
       \<lparr>chunk_name = ''.lbss'',
        shdr = \<lparr>sh_type = 8, sh_flags = 0x3, sh_addr = 0, sh_offset = 0,
               sh_size = 16, sh_addralign = 16\<rparr>,
        starts_new_ptload = False\<rparr>], 0)"
  by (simp only: set_osec_offsets_def huge_bss_chunks_def set_osec_offsets_loop.simps
      huge_bss_step1 huge_bss_step2 prod.case)

text \<open>
  Without the bound the claim fails: a \<^verbatim>\<open>.bss\<close> of \<open>2^64 - 0x200000\<close> bytes at
  the image base \<open>0x200000\<close> wraps the running address to 0, and the next allocated
  chunk gets the smaller address.
\<close>

theorem set_osec_offsets_wraps:
  "\<not> sorted (map (\<lambda>c. sh_addr (shdr c))
       (filter is_alloc (fst (set_osec_offsets 4096 0x200000 huge_bss_chunks))))"
  unfolding huge_bss_layout by (simp add: is_alloc_def SHF_ALLOC_def)

lemma small_step1:
  "osec_step 4096 0 0x200000 (mk_chunk ''.rodata'' 1 0x2 64 8 True) =
     (\<lparr>chunk_name = ''.rodata'',
       shdr = \<lparr>sh_type = 1, sh_flags = 0x2, sh_addr = 0x200000, sh_offset = 0, sh_size = 64,
               sh_addralign = 8\<rparr>,
       starts_new_ptload = True\<rparr>, 64, 0x200040)"
  by (simp add: chunk_eval)

lemma small_step2:
  "osec_step 4096 64 0x200040 (mk_chunk ''.text'' 1 0x6 100 16 True) =
     (\<lparr>chunk_name = ''.text'',
       shdr = \<lparr>sh_type = 1, sh_flags = 0x6, sh_addr = 0x201000, sh_offset = 4096,
               sh_size = 100, sh_addralign = 16\<rparr>,
       starts_new_ptload = True\<rparr>, 4196, 0x201064)"
  by (simp add: chunk_eval)

lemma small_layout:
  "set_osec_offsets 4096 0x200000 small_chunks =
     ([\<lparr>chunk_name = ''.rodata'',
        shdr = \<lparr>sh_type = 1, sh_flags = 0x2, sh_addr = 0x200000, sh_offset = 0, sh_size = 64,
                sh_addralign = 8\<rparr>,
        starts_new_ptload = True\<rparr>,
       \<lparr>chunk_name = ''.text'',
        shdr = \<lparr>sh_type = 1, sh_flags = 0x6, sh_addr = 0x201000, sh_offset = 4096, sh_size = 100,
                sh_addralign = 16\<rparr>,
        starts_new_ptload = True\<rparr>], 4196)"
  by (simp only: set_osec_offsets_def small_chunks_def set_osec_offsets_loop.simps
      small_step1 small_step2 prod.case)

theorem set_osec_offsets_layout_witness:
  "(0::nat) < 4096 \<and> list_all (\<lambda>c. 0 < sh_addralign (shdr c)) small_chunks \<and>
   0x200000 + layout_extent 4096 small_chunks < 2 ^ 64 \<and>
   snd (set_osec_offsets 4096 0x200000 small_chunks) = 4196 \<and>
   map (\<lambda>c. sh_offset (shdr c)) (fst (set_osec_offsets 4096 0x200000 small_chunks)) = [0, 4096] \<and>
   map (\<lambda>c. sh_addr (shdr c)) (fst (set_osec_offsets 4096 0x200000 small_chunks)) =
     [0x200000, 0x201000]"
proof -
  have h: "(0::nat) < 4096" "\<forall>c \<in> set small_chunks. 0 < sh_addralign (shdr c)"
    "0x200000 + layout_extent 4096 small_chunks < 2 ^ 64"
    by (simp_all add: small_chunks_def mk_chunk_def layout_extent_def)
  from set_osec_offsets_layout[OF h, of 0 "[]" "\<lambda>c b. b"]
  have "\<exists>cs fs. set_osec_offsets 4096 0x200000 small_chunks = (cs, fs)" by blast
  then show ?thesis using h
    by (simp add: small_layout list_all_iff)
qed

section \<open>Verification: \<^verbatim>\<open>clear_padding\<close>\<close>

lemma memset_result:
  assumes "pos + n \<le> length buf"
  shows "\<exists>buf'. memset buf pos c n = Inr buf' \<and> length buf' = length buf \<and>
     (\<forall>j < length buf. buf' ! j = (if pos \<le> j \<and> j < pos + n then c else buf ! j))"
proof -
  define buf' where "buf' = take pos buf @ replicate n c @ drop (pos + n) buf"
  have m: "memset buf pos c n = Inr buf'" using assms by (simp add: memset_def buf'_def)
  have l: "length buf' = length buf" using assms by (simp add: buf'_def)
  have "buf' ! j = (if pos \<le> j \<and> j < pos + n then c else buf ! j)" if "j < length buf" for j
  proof -
    consider "j < pos" | "pos \<le> j" "j < pos + n" | "pos + n \<le> j" by linarith
    then show ?thesis
    proof cases
      case 1
      then show ?thesis using assms that by (simp add: buf'_def nth_append)
    next
      case 2
      then have "j - pos < n" by linarith
      then show ?thesis using 2 assms that by (simp add: buf'_def nth_append)
    next
      case 3
      then have "j - pos - n + (pos + n) = j" "\<not> j - pos < n" "\<not> j < pos" by simp_all
      then show ?thesis using 3 assms that by (simp add: buf'_def nth_append)
    qed
  qed
  with m l show ?thesis by blast
qed

lemma zero_p:
  assumes "chunk_end a \<le> next_start" "next_start \<le> length buf" "length buf < 2 ^ 64"
  shows "(if sh_type (shdr a) \<noteq> SHT_NOBITS then u64 (sh_offset (shdr a) + sh_size (shdr a))
            else sh_offset (shdr a)) = chunk_end a"
proof -
  have b: "chunk_end a < 2 ^ 64" using assms by linarith
  show ?thesis
  proof (cases "sh_type (shdr a) = SHT_NOBITS")
    case True
    then show ?thesis by (simp add: chunk_end_def is_bss_def)
  next
    case False
    then have "chunk_end a = sh_offset (shdr a) + sh_size (shdr a)"
      by (simp add: chunk_end_def is_bss_def)
    with b False show ?thesis by (simp add: u64_def)
  qed
qed

lemma u64_sub:
  assumes "pos \<le> next_start" "next_start < (2::nat) ^ 64"
  shows "u64 (2 ^ 64 + next_start - pos) = next_start - pos"
proof -
  have "2 ^ 64 + next_start - pos = (next_start - pos) + 1 * 2 ^ 64"
    using assms(1) by simp
  then have "u64 (2 ^ 64 + next_start - pos) = (next_start - pos) mod 2 ^ 64"
    unfolding u64_def by (simp only: mod_mult_self1)
  also have "\<dots> = next_start - pos" using assms by simp
  finally show ?thesis .
qed

lemma zero_result:
  assumes "chunk_end a \<le> next_start" "next_start \<le> length buf" "length buf < 2 ^ 64"
  shows "\<exists>buf'. zero a next_start buf = Inr buf' \<and> length buf' = length buf \<and>
     (\<forall>j < length buf. buf' ! j = (if chunk_end a \<le> j \<and> j < next_start then 0 else buf ! j))"
proof -
  have ns: "next_start < 2 ^ 64" using assms by linarith
  have z: "zero a next_start buf = memset buf (chunk_end a) 0 (next_start - chunk_end a)"
    unfolding zero_def Let_def zero_p[OF assms] u64_sub[OF assms(1) ns] ..
  have "chunk_end a + (next_start - chunk_end a) \<le> length buf" using assms by simp
  from memset_result[OF this, of 0] show ?thesis
    unfolding z using assms(1) by simp
qed

lemma chunk_end_ge: "sh_offset (shdr c) \<le> chunk_end c"
  by (simp add: chunk_end_def)

lemma file_ordered_first_last:
  "file_ordered (c # cs) \<Longrightarrow> sh_offset (shdr c) \<le> chunk_end (last (c # cs))"
proof (induction cs arbitrary: c)
  case Nil
  then show ?case by (simp add: chunk_end_ge)
next
  case (Cons b cs)
  then have "chunk_end c \<le> sh_offset (shdr b)" "sh_offset (shdr b) \<le> chunk_end (last (b # cs))"
    by simp_all
  then show ?case using chunk_end_ge[of c] by simp
qed

lemma in_padding_split:
  "chunks \<noteq> [] \<Longrightarrow>
   in_padding chunks filesize j =
     (in_padding chunks 0 j \<or> (chunk_end (last chunks) \<le> j \<and> j < filesize))"
proof (induction chunks filesize j rule: in_padding.induct)
  case (1 filesize j)
  then show ?case by simp
next
  case (2 a filesize j)
  show ?case by simp
next
  case (3 a b cs filesize j)
  then have "in_padding (b # cs) filesize j =
     (in_padding (b # cs) 0 j \<or> (chunk_end (last (b # cs)) \<le> j \<and> j < filesize))"
    by simp
  then show ?case by (simp add: disj_assoc)
qed

lemma clear_padding_loop_result:
  "file_ordered chunks \<Longrightarrow> chunks \<noteq> [] \<Longrightarrow> chunk_end (last chunks) \<le> length buf \<Longrightarrow>
   length buf < 2 ^ 64 \<Longrightarrow>
   \<exists>buf'. clear_padding_loop chunks buf = Inr buf' \<and> length buf' = length buf \<and>
     (\<forall>j < length buf. buf' ! j = (if in_padding chunks 0 j then 0 else buf ! j))"
proof (induction chunks buf rule: clear_padding_loop.induct)
  case (1 a b cs buf)
  have ab: "chunk_end a \<le> sh_offset (shdr b)" and fo: "file_ordered (b # cs)"
    using "1.prems"(1) by simp_all
  have "sh_offset (shdr b) \<le> chunk_end (last (b # cs))"
    using file_ordered_first_last[OF fo] .
  then have nb: "sh_offset (shdr b) \<le> length buf" using "1.prems"(3) by simp
  from zero_result[OF ab nb "1.prems"(4)] obtain buf1 where
    z: "zero a (sh_offset (shdr b)) buf = Inr buf1" "length buf1 = length buf"
       "\<forall>j < length buf. buf1 ! j =
          (if chunk_end a \<le> j \<and> j < sh_offset (shdr b) then 0 else buf ! j)"
    by blast
  have "\<exists>buf'. clear_padding_loop (b # cs) buf1 = Inr buf' \<and> length buf' = length buf1 \<and>
     (\<forall>j < length buf1. buf' ! j = (if in_padding (b # cs) 0 j then 0 else buf1 ! j))"
    using "1.IH"[OF z(1) fo] "1.prems" z(2) by simp
  then obtain buf' where
    r: "clear_padding_loop (b # cs) buf1 = Inr buf'" "length buf' = length buf1"
       "\<forall>j < length buf1. buf' ! j = (if in_padding (b # cs) 0 j then 0 else buf1 ! j)"
    by blast
  have "clear_padding_loop (a # b # cs) buf = Inr buf'" using z(1) r(1) by simp
  moreover have "length buf' = length buf" using r(2) z(2) by simp
  moreover have "\<forall>j < length buf. buf' ! j = (if in_padding (a # b # cs) 0 j then 0 else buf ! j)"
  proof (intro allI impI)
    fix j assume j: "j < length buf"
    then have e1: "buf' ! j = (if in_padding (b # cs) 0 j then 0 else buf1 ! j)"
      using r(3) z(2) by simp
    have e2: "buf1 ! j = (if chunk_end a \<le> j \<and> j < sh_offset (shdr b) then 0 else buf ! j)"
      using z(3) j by simp
    show "buf' ! j = (if in_padding (a # b # cs) 0 j then 0 else buf ! j)"
      unfolding e1 e2 by auto
  qed
  ultimately show ?case by blast
qed simp_all

lemma clear_padding_result:
  assumes "chunks \<noteq> []" "file_ordered chunks" "chunk_end (last chunks) \<le> filesize"
    "filesize < 2 ^ 64" "length buf = filesize"
  shows "\<exists>buf'. clear_padding filesize chunks buf = Inr buf' \<and> length buf' = filesize \<and>
     (\<forall>j < filesize. buf' ! j = (if in_padding chunks filesize j then 0 else buf ! j))"
proof -
  have "chunk_end (last chunks) \<le> length buf" "length buf < 2 ^ 64"
    using assms by simp_all
  from clear_padding_loop_result[OF assms(2,1) this] obtain buf1 where
    l: "clear_padding_loop chunks buf = Inr buf1" "length buf1 = length buf"
       "\<forall>j < length buf. buf1 ! j = (if in_padding chunks 0 j then 0 else buf ! j)"
    by blast
  have "chunk_end (last chunks) \<le> filesize" "filesize \<le> length buf1" "length buf1 < 2 ^ 64"
    using assms l(2) by simp_all
  from zero_result[OF this] obtain buf' where
    z: "zero (last chunks) filesize buf1 = Inr buf'" "length buf' = length buf1"
       "\<forall>j < length buf1. buf' ! j =
          (if chunk_end (last chunks) \<le> j \<and> j < filesize then 0 else buf1 ! j)"
    by blast
  have "clear_padding filesize chunks buf = Inr buf'"
    using l(1) z(1) assms(1) by (simp add: clear_padding_def)
  moreover have "length buf' = filesize" using z(2) l(2) assms(5) by simp
  moreover have "\<forall>j < filesize. buf' ! j = (if in_padding chunks filesize j then 0 else buf ! j)"
  proof (intro allI impI)
    fix j assume j: "j < filesize"
    then have e1: "buf' ! j =
        (if chunk_end (last chunks) \<le> j \<and> j < filesize then 0 else buf1 ! j)"
      using z(3) l(2) assms(5) by simp
    have e2: "buf1 ! j = (if in_padding chunks 0 j then 0 else buf ! j)"
      using l(3) j assms(5) by simp
    show "buf' ! j = (if in_padding chunks filesize j then 0 else buf ! j)"
      unfolding e1 e2 in_padding_split[OF assms(1), of filesize j] by simp
  qed
  ultimately show ?thesis by blast
qed

lemma foldl_copy_length:
  "(\<forall>c b. length (copy_buf c b) = length b) \<Longrightarrow>
   length (foldl (\<lambda>b c. copy_buf c b) buf cs) = length buf"
  by (induction cs arbitrary: buf) simp_all

lemma in_padding_less:
  "file_ordered chunks \<Longrightarrow> chunks \<noteq> [] \<Longrightarrow> chunk_end (last chunks) \<le> filesize \<Longrightarrow>
   in_padding chunks filesize j \<Longrightarrow> j < filesize"
proof (induction chunks filesize j rule: in_padding.induct)
  case (1 filesize j)
  then show ?case by simp
next
  case (2 a filesize j)
  then show ?case by simp
next
  case (3 a b cs filesize j)
  have fo: "file_ordered (b # cs)" using "3.prems"(1) by simp
  have le: "chunk_end (last (b # cs)) \<le> filesize" using "3.prems"(3) by simp
  show ?case
  proof (cases "chunk_end a \<le> j \<and> j < sh_offset (shdr b)")
    case True
    then show ?thesis using file_ordered_first_last[OF fo] le by linarith
  next
    case False
    then have "in_padding (b # cs) filesize j" using "3.prems"(4) by auto
    then show ?thesis using "3.IH"[OF fo _ le] by simp
  qed
qed

lemma write_output_result:
  assumes pg: "0 < page" and ne: "cs \<noteq> []"
    and al: "\<forall>c \<in> set cs. 0 < sh_addralign (shdr c)"
    and fit: "image_base + layout_extent page cs < 2 ^ 64"
    and cp: "\<forall>c b. length (copy_buf c b) = length b"
    and mp: "snd (set_osec_offsets page image_base cs) \<le> length mapped"
  shows "\<exists>out. write_output page image_base filler mapped copy_buf cs = Inr out \<and>
     length out = snd (set_osec_offsets page image_base cs) \<and>
     (\<forall>j. in_padding (fst (set_osec_offsets page image_base cs))
            (snd (set_osec_offsets page image_base cs)) j \<longrightarrow> out ! j = 0)"
proof -
  have "0 + layout_extent page cs < 2 ^ 64" using fit by simp
  from set_osec_offsets_loop_layout[OF pg al this fit] obtain cs' r where
    h: "set_osec_offsets_loop page 0 image_base cs = (cs', r)" "length cs' = length cs"
       "file_ordered cs'" "r = (if cs = [] then 0 else chunk_end (last cs'))"
       "r \<le> 0 + layout_extent page cs"
    by blast
  have so: "set_osec_offsets page image_base cs = (cs', r)"
    using h(1) by (simp add: set_osec_offsets_def)
  have ne': "cs' \<noteq> []" using h(2) ne by auto
  have r: "chunk_end (last cs') \<le> r" "r < 2 ^ 64" using h(4,5) ne fit by simp_all
  define buf0 where "buf0 = OutputFile_open filler r mapped"
  define buf1 where "buf1 = foldl (\<lambda>b c. copy_buf c b) buf0 cs'"
  have "length buf0 = r" using mp so by (simp add: buf0_def OutputFile_open_def)
  then have l1: "length buf1 = r" by (simp add: buf1_def foldl_copy_length[OF cp])
  from clear_padding_result[OF ne' h(3) r l1] obtain out where
    o: "clear_padding r cs' buf1 = Inr out" "length out = r"
       "\<forall>j < r. out ! j = (if in_padding cs' r j then 0 else buf1 ! j)"
    by blast
  have w: "write_output page image_base filler mapped copy_buf cs = Inr out"
    using o(1) so by (simp add: write_output_def Let_def buf0_def buf1_def)
  have "out ! j = 0" if "in_padding cs' r j" for j
    using o(3) in_padding_less[OF h(3) ne' r(1) that] that by simp
  then show ?thesis using w o(2) so by simp
qed

text \<open>
  Claim C3. On a laid-out, non-empty chunk list (each chunk ends where the next one
  starts or before, the last one ends within \<open>filesize\<close>) \<^verbatim>\<open>clear_padding\<close> succeeds
  and changes exactly the padding: a byte between the logical end of a chunk
  (\<open>sh_offset + sh_size\<close>, or \<open>sh_offset\<close> for \<^verbatim>\<open>SHT_NOBITS\<close>) and the next chunk's
  \<open>sh_offset\<close>, or between the last chunk's logical end and \<open>filesize\<close>, becomes zero,
  and every other byte stays as the copies left it. With a filler configured
  (\<open>filler \<noteq> -1\<close>) \<^verbatim>\<open>OutputFile::open\<close> fills the whole buffer with that byte before
  any copy. In the run of \<^verbatim>\<open>main\<close> (layout, open, the copies, \<^verbatim>\<open>clear_padding\<close>) every
  padding byte of the output is zero, whatever the filler, the mapped content and the
  copies are.
\<close>

theorem clear_padding_zeroes_padding:
  "(chunks \<noteq> [] \<and> file_ordered chunks \<and> chunk_end (last chunks) \<le> filesize \<and>
    filesize < 2 ^ 64 \<and> length buf = filesize \<longrightarrow>
      (\<exists>buf'. clear_padding filesize chunks buf = Inr buf' \<and> length buf' = filesize \<and>
         (\<forall>j < filesize. buf' ! j = (if in_padding chunks filesize j then 0 else buf ! j)))) \<and>
   (filler \<noteq> - 1 \<longrightarrow>
      OutputFile_open filler filesize mapped = replicate filesize (of_int filler)) \<and>
   (0 < page \<and> cs \<noteq> [] \<and> (\<forall>c \<in> set cs. 0 < sh_addralign (shdr c)) \<and>
    image_base + layout_extent page cs < 2 ^ 64 \<and>
    (\<forall>c b. length (copy_buf c b) = length b) \<and>
    snd (set_osec_offsets page image_base cs) \<le> length mapped \<longrightarrow>
      (\<exists>out. write_output page image_base filler mapped copy_buf cs = Inr out \<and>
         length out = snd (set_osec_offsets page image_base cs) \<and>
         (\<forall>j. in_padding (fst (set_osec_offsets page image_base cs))
                (snd (set_osec_offsets page image_base cs)) j \<longrightarrow> out ! j = 0)))"
proof (intro conjI impI)
  assume "chunks \<noteq> [] \<and> file_ordered chunks \<and> chunk_end (last chunks) \<le> filesize \<and>
    filesize < 2 ^ 64 \<and> length buf = filesize"
  then show "\<exists>buf'. clear_padding filesize chunks buf = Inr buf' \<and> length buf' = filesize \<and>
         (\<forall>j < filesize. buf' ! j = (if in_padding chunks filesize j then 0 else buf ! j))"
    using clear_padding_result by blast
next
  assume "filler \<noteq> - 1"
  then show "OutputFile_open filler filesize mapped = replicate filesize (of_int filler)"
    by (simp add: OutputFile_open_def)
next
  assume "0 < page \<and> cs \<noteq> [] \<and> (\<forall>c \<in> set cs. 0 < sh_addralign (shdr c)) \<and>
    image_base + layout_extent page cs < 2 ^ 64 \<and>
    (\<forall>c b. length (copy_buf c b) = length b) \<and>
    snd (set_osec_offsets page image_base cs) \<le> length mapped"
  then show "\<exists>out. write_output page image_base filler mapped copy_buf cs = Inr out \<and>
         length out = snd (set_osec_offsets page image_base cs) \<and>
         (\<forall>j. in_padding (fst (set_osec_offsets page image_base cs))
                (snd (set_osec_offsets page image_base cs)) j \<longrightarrow> out ! j = 0)"
    using write_output_result by blast
qed

lemma small_laid_out_facts:
  "small_chunks_laid_out \<noteq> []" "file_ordered small_chunks_laid_out"
  "chunk_end (last small_chunks_laid_out) = 4196"
  "in_padding small_chunks_laid_out 4196 64" "\<not> in_padding small_chunks_laid_out 4196 63"
  unfolding small_chunks_laid_out_def small_layout
  by (simp_all add: chunk_end_def is_bss_def SHT_NOBITS_def)

theorem clear_padding_zeroes_padding_witness:
  "small_chunks_laid_out \<noteq> [] \<and> file_ordered small_chunks_laid_out \<and>
   chunk_end (last small_chunks_laid_out) \<le> 4196 \<and> (4196 :: nat) < 2 ^ 64 \<and>
   length (replicate 4196 (0xCC :: byte)) = 4196 \<and>
   (\<exists>buf'. clear_padding 4196 small_chunks_laid_out (replicate 4196 0xCC) = Inr buf' \<and>
      buf' ! 63 = 0xCC \<and> buf' ! 64 = 0) \<and>
   (0xCC :: int) \<noteq> - 1 \<and>
   OutputFile_open 0xCC 4196 [] = replicate 4196 0xCC \<and>
   (0 :: nat) < 4096 \<and> small_chunks \<noteq> [] \<and>
   list_all (\<lambda>c. 0 < sh_addralign (shdr c)) small_chunks \<and>
   0x200000 + layout_extent 4096 small_chunks < 2 ^ 64 \<and>
   (\<exists>out. write_output 4096 0x200000 0xCC (replicate 4196 0) (\<lambda>c b. b) small_chunks = Inr out \<and>
      length out = 4196 \<and> out ! 64 = 0)"
proof -
  note t = clear_padding_zeroes_padding[where chunks = small_chunks_laid_out
      and filesize = 4196 and buf = "replicate 4196 (0xCC :: byte)" and filler = "0xCC"
      and mapped = "replicate 4196 0" and page = 4096 and cs = small_chunks
      and image_base = "0x200000" and copy_buf = "\<lambda>c b. b"]
  have h1: "small_chunks_laid_out \<noteq> [] \<and> file_ordered small_chunks_laid_out \<and>
    chunk_end (last small_chunks_laid_out) \<le> 4196 \<and> (4196 :: nat) < 2 ^ 64 \<and>
    length (replicate 4196 (0xCC :: byte)) = 4196"
    by (simp add: small_laid_out_facts)
  with t obtain buf' where
    b: "clear_padding 4196 small_chunks_laid_out (replicate 4196 0xCC) = Inr buf'"
       "\<forall>j < 4196. buf' ! j =
          (if in_padding small_chunks_laid_out 4196 j then 0 else replicate 4196 0xCC ! j)"
    by blast
  have b63: "buf' ! 63 = 0xCC" using b(2)[rule_format, of 63] small_laid_out_facts by simp
  have b64: "buf' ! 64 = 0" using b(2)[rule_format, of 64] small_laid_out_facts by simp
  have h3: "(0 :: nat) < 4096 \<and> small_chunks \<noteq> [] \<and>
    (\<forall>c \<in> set small_chunks. 0 < sh_addralign (shdr c)) \<and>
    0x200000 + layout_extent 4096 small_chunks < 2 ^ 64 \<and>
    (\<forall>c b. length ((\<lambda>c b. b) (c :: OutputChunk) (b :: byte list)) = length b) \<and>
    snd (set_osec_offsets 4096 0x200000 small_chunks) \<le> length (replicate 4196 (0 :: byte))"
    by (simp add: small_layout) (simp add: small_chunks_def mk_chunk_def layout_extent_def)
  with t obtain out where
    o: "write_output 4096 0x200000 0xCC (replicate 4196 0) (\<lambda>c b. b) small_chunks = Inr out"
       "length out = snd (set_osec_offsets 4096 0x200000 small_chunks)"
       "\<forall>j. in_padding (fst (set_osec_offsets 4096 0x200000 small_chunks))
                (snd (set_osec_offsets 4096 0x200000 small_chunks)) j \<longrightarrow> out ! j = 0"
    by blast
  have "out ! 64 = 0"
    using o(3)[rule_format, of 64] small_laid_out_facts(4)
    by (simp add: small_chunks_laid_out_def small_layout)
  moreover have "length out = 4196" using o(2) by (simp add: small_layout)
  ultimately have "\<exists>out. write_output 4096 0x200000 0xCC (replicate 4196 0) (\<lambda>c b. b)
      small_chunks = Inr out \<and> length out = 4196 \<and> out ! 64 = 0"
    using o(1) by blast
  moreover have "\<exists>buf'. clear_padding 4196 small_chunks_laid_out (replicate 4196 0xCC) = Inr buf' \<and>
      buf' ! 63 = 0xCC \<and> buf' ! 64 = 0"
    using b(1) b63 b64 by blast
  moreover have "OutputFile_open 0xCC 4196 [] = replicate 4196 0xCC"
    by (simp add: OutputFile_open_def)
  ultimately show ?thesis using h1 h3 by (simp add: list_all_iff)
qed

section \<open>Verification: \<^verbatim>\<open>set_isec_offsets\<close>\<close>

lemma valid_align_pos: "valid_align a \<Longrightarrow> 0 < a"
  by (auto simp: valid_align_def)

lemma valid_align_u32: "valid_align a \<Longrightarrow> u32 a = a"
proof -
  assume "valid_align a"
  then obtain k where k: "k < 32" "a = 2 ^ k" by (auto simp: valid_align_def)
  then have "(2::nat) ^ k < 2 ^ 32" by (intro power_strict_increasing) simp_all
  then show ?thesis using k by (simp add: u32_def)
qed

lemma valid_align_dvd: "valid_align a \<Longrightarrow> valid_align b \<Longrightarrow> a \<le> b \<Longrightarrow> a dvd b"
proof -
  assume "valid_align a" "valid_align b" "a \<le> b"
  then obtain k l where k: "a = 2 ^ k" "b = 2 ^ l" "(2::nat) ^ k \<le> 2 ^ l"
    by (auto simp: valid_align_def)
  then have "k \<le> l" by simp
  then show ?thesis using k by (simp add: le_imp_power_dvd)
qed

lemma trunc_id: "n < 2 ^ w \<Longrightarrow> trunc w n = n"
  by (simp add: trunc_def)

lemma pow_w_le: "w \<le> 64 \<Longrightarrow> (2::nat) ^ w \<le> 2 ^ 64"
  by (rule power_increasing) simp_all

lemma Max_insert_max:
  "finite S \<Longrightarrow> Max (insert (max x y) S) = Max (insert x (insert y (S :: nat set)))"
  by (cases "S = {}") (simp_all add: max.assoc)

lemma slice_offsets_exact:
  assumes w: "w \<le> 64" and A: "0 < A"
  shows "(\<forall>i \<in> set sl. 0 < sh_addralign (isec_shdr i) \<and> sh_addralign (isec_shdr i) \<le> A \<and>
            u32 (sh_addralign (isec_shdr i)) = sh_addralign (isec_shdr i)) \<Longrightarrow>
    u32 al = al \<Longrightarrow>
    off + sum_list (map (\<lambda>i. sh_size (isec_shdr i) + A) sl) < 2 ^ w \<Longrightarrow>
    \<exists>sl' sz. slice_offsets w off al sl =
        (sl', sz, Max (insert al (set (map (\<lambda>i. sh_addralign (isec_shdr i)) sl)))) \<and>
      map isec_shdr sl' = map isec_shdr sl \<and>
      map isec_name sl' = map isec_name sl \<and>
      (\<forall>i \<in> set sl'. sh_addralign (isec_shdr i) dvd offset i \<and> off \<le> offset i \<and>
         offset i + sh_size (isec_shdr i) \<le> sz) \<and>
      off \<le> sz \<and> sz \<le> off + sum_list (map (\<lambda>i. sh_size (isec_shdr i) + A) sl)"
proof (induction sl arbitrary: off al)
  case Nil
  then show ?case by simp
next
  case (Cons i sl)
  define a where "a = sh_addralign (isec_shdr i)"
  define s where "s = sh_size (isec_shdr i)"
  define R where "R = sum_list (map (\<lambda>i. sh_size (isec_shdr i) + A) sl)"
  have a: "0 < a" "a \<le> A" "u32 a = a" using Cons.prems(1) by (simp_all add: a_def)
  have b: "off + (s + A) + R < 2 ^ w" using Cons.prems(3) by (simp add: s_def R_def)
  have w64: "(2::nat) ^ w \<le> 2 ^ 64" using w by (rule pow_w_le)
  define o1 where "o1 = round_up off a"
  have o1: "off \<le> o1" "o1 < off + a" "a dvd o1"
    using round_up_ge[OF a(1), of off] round_up_lt[OF a(1), of off] round_up_dvd[of a off]
    by (simp_all add: o1_def)
  have lt: "o1 < 2 ^ w" "o1 + s < 2 ^ w" "o1 + s + R < 2 ^ w"
    using o1 b a by simp_all
  have e1: "align_to off a = o1"
    using lt w64 by (simp add: align_to_round_up o1_def[symmetric] u64_id)
  have e2: "u64 (o1 + s) = o1 + s" using lt w64 by (simp add: u64_id)
  have e3: "trunc w o1 = o1" using lt by (simp add: trunc_id)
  have al': "u32 (max al a) = max al a" using a(3) Cons.prems(2) by (simp add: max_def)
  have "\<forall>i \<in> set sl. 0 < sh_addralign (isec_shdr i) \<and> sh_addralign (isec_shdr i) \<le> A \<and>
            u32 (sh_addralign (isec_shdr i)) = sh_addralign (isec_shdr i)"
    using Cons.prems(1) by simp
  from Cons.IH[OF this al' lt(3)[unfolded R_def]] obtain sl' sz where
    h: "slice_offsets w (o1 + s) (max al a) sl =
        (sl', sz, Max (insert (max al a) (set (map (\<lambda>i. sh_addralign (isec_shdr i)) sl))))"
       "map isec_shdr sl' = map isec_shdr sl" "map isec_name sl' = map isec_name sl"
       "\<forall>i \<in> set sl'. sh_addralign (isec_shdr i) dvd offset i \<and> o1 + s \<le> offset i \<and>
         offset i + sh_size (isec_shdr i) \<le> sz"
       "o1 + s \<le> sz" "sz \<le> o1 + s + R"
    unfolding R_def by blast
  have mx: "Max (insert (max al a) (set (map (\<lambda>i. sh_addralign (isec_shdr i)) sl))) =
            Max (insert al (set (map (\<lambda>i. sh_addralign (isec_shdr i)) (i # sl))))"
  proof -
    have "insert al (set (map (\<lambda>i. sh_addralign (isec_shdr i)) (i # sl))) =
          insert al (insert a (set (map (\<lambda>i. sh_addralign (isec_shdr i)) sl)))"
      by (simp add: a_def)
    then show ?thesis using Max_insert_max[of "set (map (\<lambda>i. sh_addralign (isec_shdr i)) sl)" al a]
      by simp
  qed
  have res: "slice_offsets w off al (i # sl) =
      (i\<lparr>offset := o1\<rparr> # sl', sz,
       Max (insert al (set (map (\<lambda>i. sh_addralign (isec_shdr i)) (i # sl)))))"
    using h(1) e1 e2 e3 a(3) Cons.prems(2) mx
    by (simp add: Let_def a_def[symmetric] s_def[symmetric])
  have g: "\<forall>x \<in> set (i\<lparr>offset := o1\<rparr> # sl'). sh_addralign (isec_shdr x) dvd offset x \<and>
       off \<le> offset x \<and> offset x + sh_size (isec_shdr x) \<le> sz"
    using h(4,5) o1 by (auto simp: a_def s_def)
  have bd: "off \<le> sz" "sz \<le> off + sum_list (map (\<lambda>i. sh_size (isec_shdr i) + A) (i # sl))"
    using h(5,6) o1 a by (simp_all add: R_def s_def)
  show ?case
    using res h(2,3) g bd by (intro exI[of _ "i\<lparr>offset := o1\<rparr> # sl'"] exI[of _ sz]) simp
qed

lemma sum_two_align:
  "sum_list (map (\<lambda>i. f i + 2 * A) sl) = sum_list (map (\<lambda>i. f i + A) sl) + length sl * (A :: nat)"
  by (induction sl) simp_all

lemma sum_two_align_ge:
  "sl \<noteq> [] \<Longrightarrow>
   sum_list (map (\<lambda>i. f i + A) sl) + (A :: nat) \<le> sum_list (map (\<lambda>i. f i + 2 * A) sl)"
  unfolding sum_two_align[of f A sl] by (cases sl) simp_all

lemma slice_starts_length: "length (slice_starts A st szs) = length szs"
  by (induction szs arbitrary: st) simp_all

lemma rebase_shdr: "map isec_shdr (rebase w st sl) = map isec_shdr sl"
  by (simp add: rebase_def)

lemma slices_layout:
  assumes w: "w \<le> 64" and A: "0 < A"
  shows "sls \<noteq> [] \<Longrightarrow>
    (\<forall>sl \<in> set sls. sl \<noteq> [] \<and> (\<forall>i \<in> set sl. 0 < sh_addralign (isec_shdr i) \<and>
        sh_addralign (isec_shdr i) dvd A \<and> sh_addralign (isec_shdr i) \<le> A \<and>
        u32 (sh_addralign (isec_shdr i)) = sh_addralign (isec_shdr i))) \<Longrightarrow>
    A dvd st \<Longrightarrow>
    st + sum_list (map (\<lambda>sl. sum_list (map (\<lambda>i. sh_size (isec_shdr i) + 2 * A) sl)) sls) < 2 ^ w \<Longrightarrow>
    map isec_shdr (concat (map (\<lambda>(st, sl). rebase w st sl)
        (zip (slice_starts A st (map (\<lambda>r. fst (snd r)) (map (slice_offsets w 0 1) sls)))
             (map fst (map (slice_offsets w 0 1) sls))))) = map isec_shdr (concat sls) \<and>
    (\<forall>i \<in> set (concat (map (\<lambda>(st, sl). rebase w st sl)
        (zip (slice_starts A st (map (\<lambda>r. fst (snd r)) (map (slice_offsets w 0 1) sls)))
             (map fst (map (slice_offsets w 0 1) sls))))).
       sh_addralign (isec_shdr i) dvd offset i \<and>
       offset i + sh_size (isec_shdr i) \<le>
         last (slice_starts A st (map (\<lambda>r. fst (snd r)) (map (slice_offsets w 0 1) sls))) +
         last (map (\<lambda>r. fst (snd r)) (map (slice_offsets w 0 1) sls))) \<and>
    st \<le> last (slice_starts A st (map (\<lambda>r. fst (snd r)) (map (slice_offsets w 0 1) sls))) +
         last (map (\<lambda>r. fst (snd r)) (map (slice_offsets w 0 1) sls)) \<and>
    last (slice_starts A st (map (\<lambda>r. fst (snd r)) (map (slice_offsets w 0 1) sls))) +
      last (map (\<lambda>r. fst (snd r)) (map (slice_offsets w 0 1) sls)) \<le>
      st + sum_list (map (\<lambda>sl. sum_list (map (\<lambda>i. sh_size (isec_shdr i) + 2 * A) sl)) sls)"
proof (induction sls arbitrary: st)
  case Nil
  then show ?case by simp
next
  case (Cons sl rest)
  define E where "E = sum_list (map (\<lambda>i. sh_size (isec_shdr i) + 2 * A) sl)"
  define E1 where "E1 = sum_list (map (\<lambda>i. sh_size (isec_shdr i) + A) sl)"
  define ER where
    "ER = sum_list (map (\<lambda>sl. sum_list (map (\<lambda>i. sh_size (isec_shdr i) + 2 * A) sl)) rest)"
  have ne: "sl \<noteq> []" using Cons.prems(2) by simp
  have EE: "E1 + A \<le> E" unfolding E_def E1_def using ne by (rule sum_two_align_ge)
  have bnd: "st + E + ER < 2 ^ w" using Cons.prems(4) by (simp add: E_def ER_def)
  have w64: "(2::nat) ^ w \<le> 2 ^ 64" using w by (rule pow_w_le)
  have va: "\<forall>i \<in> set sl. 0 < sh_addralign (isec_shdr i) \<and> sh_addralign (isec_shdr i) \<le> A \<and>
            u32 (sh_addralign (isec_shdr i)) = sh_addralign (isec_shdr i)"
    and dv: "\<forall>i \<in> set sl. sh_addralign (isec_shdr i) dvd A"
    using Cons.prems(2) by simp_all
  have u1: "u32 1 = 1" by (simp add: u32_def)
  have b0: "0 + sum_list (map (\<lambda>i. sh_size (isec_shdr i) + A) sl) < 2 ^ w"
    using bnd EE by (simp add: E1_def)
  from slice_offsets_exact[OF w A va u1 b0] obtain sl' sz al where
    loc: "slice_offsets w 0 1 sl = (sl', sz, al)"
      and sh: "map isec_shdr sl' = map isec_shdr sl"
      and mem: "\<forall>i \<in> set sl'. sh_addralign (isec_shdr i) dvd offset i \<and>
         offset i + sh_size (isec_shdr i) \<le> sz"
      and szb: "sz \<le> E1"
    unfolding E1_def by auto
  have loc': "slice_offsets w 0 (Suc 0) sl = (sl', sz, al)" using loc by simp
  define st' where "st' = round_up (st + sz) A"
  have st': "st + sz \<le> st'" "st' < st + sz + A" "A dvd st'"
    using round_up_ge[OF A, of "st + sz"] round_up_lt[OF A, of "st + sz"] round_up_dvd[of A "st + sz"]
    by (simp_all add: st'_def)
  have small: "st + sz < 2 ^ w" "st' < 2 ^ w" "st' + ER < 2 ^ w" "st' \<le> st + E"
    using st' szb EE bnd by simp_all
  have est: "align_to (u64 (st + sz)) A = st'"
    using small w64 by (simp add: u64_id align_to_round_up st'_def[symmetric])
  define sizes where "sizes = map (\<lambda>r. fst (snd r)) (map (slice_offsets w 0 1) rest)"
  define starts where "starts = slice_starts A st' sizes"
  define R where "R = map (\<lambda>(st, sl). rebase w st sl) (zip starts (map fst (map (slice_offsets w 0 1) rest)))"
  have ex1: "slice_starts A st (sz # sizes) = st # starts"
    by (simp add: est starts_def)
  have ex2: "map (\<lambda>r. fst (snd r)) (map (slice_offsets w 0 1) (sl # rest)) = sz # sizes"
    by (simp add: loc' sizes_def)
  have ex3: "map (\<lambda>(st, sl). rebase w st sl)
        (zip (st # starts) (map fst (map (slice_offsets w 0 1) (sl # rest)))) = rebase w st sl' # R"
    by (simp add: loc' R_def)
  have len: "length starts = length rest" "length sizes = length rest"
    by (simp_all add: starts_def sizes_def slice_starts_length)
  have reb: "\<forall>i \<in> set (rebase w st sl'). sh_addralign (isec_shdr i) dvd offset i \<and>
       offset i + sh_size (isec_shdr i) \<le> st + sz"
  proof
    fix x assume "x \<in> set (rebase w st sl')"
    then obtain i where i: "i \<in> set sl'" "x = i\<lparr>offset := trunc w (offset i + st)\<rparr>"
      by (auto simp: rebase_def)
    have m: "sh_addralign (isec_shdr i) dvd offset i" "offset i + sh_size (isec_shdr i) \<le> sz"
      using mem i(1) by simp_all
    have "isec_shdr i \<in> set (map isec_shdr sl)" using i(1) sh by (metis image_eqI set_map)
    then obtain j where "j \<in> set sl" "isec_shdr j = isec_shdr i" by auto
    then have "sh_addralign (isec_shdr i) dvd A" using dv by metis
    then have d: "sh_addralign (isec_shdr i) dvd st" using Cons.prems(3) by (rule dvd_trans)
    have "offset i + st < 2 ^ w" using m(2) small(1) by simp
    then have "trunc w (offset i + st) = offset i + st" by (rule trunc_id)
    then show "sh_addralign (isec_shdr x) dvd offset x \<and>
       offset x + sh_size (isec_shdr x) \<le> st + sz"
      using i(2) m d by simp
  qed
  show ?case
  proof (cases "rest = []")
    case True
    then have "starts = []" "sizes = []" "R = []" by (simp_all add: starts_def sizes_def R_def)
    then show ?thesis
      unfolding ex2 ex1 ex3 using reb sh szb EE True
      by (simp add: rebase_shdr E_def E1_def)
  next
    case False
    have p2: "\<forall>sl \<in> set rest. sl \<noteq> [] \<and> (\<forall>i \<in> set sl. 0 < sh_addralign (isec_shdr i) \<and>
        sh_addralign (isec_shdr i) dvd A \<and> sh_addralign (isec_shdr i) \<le> A \<and>
        u32 (sh_addralign (isec_shdr i)) = sh_addralign (isec_shdr i))"
      using Cons.prems(2) by simp
    from Cons.IH[OF False p2 st'(3) small(3)[unfolded ER_def]]
    have ih: "map isec_shdr (concat R) = map isec_shdr (concat rest)"
      "\<forall>i \<in> set (concat R). sh_addralign (isec_shdr i) dvd offset i \<and>
         offset i + sh_size (isec_shdr i) \<le> last starts + last sizes"
      "st' \<le> last starts + last sizes"
      "last starts + last sizes \<le> st' + ER"
      unfolding R_def starts_def sizes_def ER_def by simp_all
    have ne2: "starts \<noteq> []" "sizes \<noteq> []" using len False by auto
    have l: "last (st # starts) = last starts" "last (sz # sizes) = last sizes"
      using ne2 by simp_all
    have c1: "map isec_shdr (concat (rebase w st sl' # R)) = map isec_shdr (concat (sl # rest))"
      using ih(1) sh by (simp add: rebase_shdr)
    have c2: "\<forall>i \<in> set (concat (rebase w st sl' # R)).
        sh_addralign (isec_shdr i) dvd offset i \<and>
        offset i + sh_size (isec_shdr i) \<le> last starts + last sizes"
      using reb ih(2,3) st'(1) by fastforce
    have c3: "st \<le> last starts + last sizes" using ih(3) st'(1) by simp
    have c4: "last starts + last sizes \<le>
        st + sum_list (map (\<lambda>sl. sum_list (map (\<lambda>i. sh_size (isec_shdr i) + 2 * A) sl)) (sl # rest))"
      using ih(4) small(4) by (simp add: E_def ER_def)
    show ?thesis unfolding ex2 ex1 ex3 l using c1 c2 c3 c4 by blast
  qed
qed

lemma split_slices:
  assumes "ms \<noteq> []"
  shows "\<exists>slices. split ms 10000 = Some (Inr slices) \<and> concat slices = ms \<and> slices \<noteq> [] \<and>
     (\<forall>sl \<in> set slices. sl \<noteq> [])"
proof -
  have u: "to_size_t 10000 = 10000" by (simp add: to_size_t_def)
  from split_positive[of 10000 ms] assms obtain spans where
    h: "split ms 10000 = Some (Inr spans)" "concat spans = ms" "spans \<noteq> []"
       "\<forall>s \<in> set (butlast spans). length s = 10000" "1 \<le> length (last spans)"
    by (auto simp: split_def u)
  have "sl \<noteq> []" if "sl \<in> set spans" for sl
  proof -
    from h(3) have "spans = butlast spans @ [last spans]" by simp
    then have "sl \<in> set (butlast spans) \<or> sl = last spans"
      using that by (metis Un_iff empty_iff empty_set insert_iff list.simps(15) set_append)
    then show ?thesis using h(4,5) by auto
  qed
  then show ?thesis using h by blast
qed

lemma Max_of_slices:
  fixes f :: "'a \<Rightarrow> nat"
  assumes "sls \<noteq> []" "\<forall>sl \<in> set sls. sl \<noteq> []"
  shows "Max (set (map (\<lambda>sl. Max (set (map f sl))) sls)) = Max (set (map f (concat sls)))"
proof (rule Max_eqI)
  show "finite (set (map (\<lambda>sl. Max (set (map f sl))) sls))" by simp
next
  fix y assume "y \<in> set (map (\<lambda>sl. Max (set (map f sl))) sls)"
  then obtain sl where sl: "sl \<in> set sls" "y = Max (set (map f sl))" by auto
  have "set (map f sl) \<subseteq> set (map f (concat sls))" using sl(1) by auto
  moreover have "set (map f sl) \<noteq> {}" using assms(2) sl(1) by simp
  ultimately show "y \<le> Max (set (map f (concat sls)))"
    unfolding sl(2) by (intro Max_mono) simp_all
next
  have ne: "set (map f (concat sls)) \<noteq> {}"
    using assms by (cases sls) auto
  then have "Max (set (map f (concat sls))) \<in> set (map f (concat sls))"
    by (intro Max_in) simp
  then obtain sl i where i: "sl \<in> set sls" "i \<in> set sl" "Max (set (map f (concat sls))) = f i"
    by auto
  have "f i \<le> Max (set (map f sl))" using i(2) by (intro Max_ge) simp_all
  moreover have "Max (set (map f sl)) \<le> Max (set (map f (concat sls)))"
    using i(1,2) by (intro Max_mono) auto
  ultimately have "Max (set (map f sl)) = Max (set (map f (concat sls)))" using i(3) by simp
  then show "Max (set (map f (concat sls))) \<in> set (map (\<lambda>sl. Max (set (map f sl))) sls)"
    using i(1) by (metis (mono_tags, lifting) image_eqI set_map)
qed

lemma max_align_ge: "i \<in> set ms \<Longrightarrow> sh_addralign (isec_shdr i) \<le> max_align ms"
  unfolding max_align_def by (intro Max_ge) simp_all

lemma max_align_valid:
  "ms \<noteq> [] \<Longrightarrow> \<forall>i \<in> set ms. valid_align (sh_addralign (isec_shdr i)) \<Longrightarrow>
   valid_align (max_align ms)"
proof -
  assume a: "ms \<noteq> []" "\<forall>i \<in> set ms. valid_align (sh_addralign (isec_shdr i))"
  then have "max_align ms \<in> set (map (\<lambda>i. sh_addralign (isec_shdr i)) ms)"
    unfolding max_align_def by (intro Max_in) simp_all
  then show ?thesis using a(2) by auto
qed

lemma sum_slice_le:
  fixes g :: "'a \<Rightarrow> nat"
  assumes "sl \<in> set sls"
  shows "sum_list (map g sl) \<le> sum_list (map g (concat sls))"
proof -
  have e: "sum_list (map g (concat sls)) = sum_list (map (\<lambda>sl. sum_list (map g sl)) sls)"
    by (induction sls) simp_all
  have "sum_list (map g sl) \<in> set (map (\<lambda>sl. sum_list (map g sl)) sls)"
    using assms by auto
  then have "sum_list (map g sl) \<le> sum_list (map (\<lambda>sl. sum_list (map g sl)) sls)"
    by (rule member_le_sum_list) simp_all
  then show ?thesis unfolding e .
qed

lemma sum_concat:
  fixes g :: "'a \<Rightarrow> nat"
  shows "sum_list (map g (concat sls)) = sum_list (map (\<lambda>sl. sum_list (map g sl)) sls)"
  by (induction sls) simp_all

lemma rebase_zero:
  "\<forall>i \<in> set sl. offset i < 2 ^ w \<Longrightarrow> rebase w 0 sl = sl"
  unfolding rebase_def by (induction sl) (simp_all add: trunc_id)

text \<open>
  Claim C4, as amended. Let the output section be non-empty, let every member's
  \<open>sh_addralign\<close> be a power of two below \<open>2^32\<close>, and let the sizes of the members
  plus twice the largest alignment per member stay below \<open>2^w\<close>, where \<open>w \<le> 64\<close> is the
  width of the offset field (no offset or size wraps around). Then
  \<^verbatim>\<open>set_isec_offsets\<close> leaves the members' headers as they are, every member's offset is
  a multiple of its \<open>sh_addralign\<close>, \<open>offset + sh_size\<close> of every member is at most the
  output section's \<open>sh_size\<close>, the output section's \<open>sh_size\<close> is the start of the last
  slice plus the local end offset of the last slice, and its \<open>sh_addralign\<close> is the
  largest \<open>sh_addralign\<close> of the members.
\<close>

theorem set_isec_offsets_invariants:
  assumes ne: "members osec \<noteq> []" and w: "w \<le> 64"
    and va: "\<forall>i \<in> set (members osec). valid_align (sh_addralign (isec_shdr i))"
    and fit: "isec_extent (members osec) < 2 ^ w"
  shows "\<exists>osec' slices. set_isec_offsets_osec w osec = Some (Inr osec') \<and>
     split (members osec) 10000 = Some (Inr slices) \<and>
     map isec_shdr (members osec') = map isec_shdr (members osec) \<and>
     (\<forall>i \<in> set (members osec'). sh_addralign (isec_shdr i) dvd offset i \<and>
        offset i + sh_size (isec_shdr i) \<le> sh_size (osec_shdr osec')) \<and>
     sh_size (osec_shdr osec') = last (isec_starts w slices) + last (isec_sizes w slices) \<and>
     sh_addralign (osec_shdr osec') = max_align (members osec)"
proof -
  define ms where "ms = members osec"
  define A where "A = max_align ms"
  define f where "f = (\<lambda>i :: InputChunk. sh_addralign (isec_shdr i))"
  define g where "g = (\<lambda>i :: InputChunk. sh_size (isec_shdr i) + 2 * A)"
  have ne': "ms \<noteq> []" using ne by (simp add: ms_def)
  have va': "\<forall>i \<in> set ms. valid_align (sh_addralign (isec_shdr i))" using va by (simp add: ms_def)
  have vA: "valid_align A" unfolding A_def using ne' va' by (rule max_align_valid)
  then have A0: "0 < A" by (rule valid_align_pos)
  have w64: "(2::nat) ^ w \<le> 2 ^ 64" using w by (rule pow_w_le)
  from split_slices[OF ne'] obtain slices where
    sp: "split ms 10000 = Some (Inr slices)" and cc: "concat slices = ms"
    and sne: "slices \<noteq> []" and ane: "\<forall>sl \<in> set slices. sl \<noteq> []"
    by blast
  have ext: "sum_list (map g ms) < 2 ^ w"
    using fit by (simp add: isec_extent_def ms_def[symmetric] A_def g_def)
  have mem: "0 < f i \<and> f i dvd A \<and> f i \<le> A \<and> u32 (f i) = f i"
    if "sl \<in> set slices" "i \<in> set sl" for sl i
  proof -
    have i: "i \<in> set ms" using that cc by auto
    then have v: "valid_align (f i)" using va' by (simp add: f_def)
    have le: "f i \<le> A" unfolding A_def f_def using i by (rule max_align_ge)
    show ?thesis
      using valid_align_pos[OF v] valid_align_dvd[OF v vA le] le valid_align_u32[OF v] by simp
  qed
  have loc: "snd (snd (slice_offsets w 0 1 sl)) = Max (set (map f sl)) \<and>
      (\<forall>i \<in> set (fst (slice_offsets w 0 1 sl)). offset i < 2 ^ w)"
    if sl: "sl \<in> set slices" for sl
  proof -
    have c: "\<forall>i \<in> set sl. 0 < sh_addralign (isec_shdr i) \<and> sh_addralign (isec_shdr i) \<le> A \<and>
            u32 (sh_addralign (isec_shdr i)) = sh_addralign (isec_shdr i)"
      using mem[OF sl] by (simp add: f_def)
    have "sum_list (map (\<lambda>i. sh_size (isec_shdr i) + A) sl) \<le> sum_list (map g sl)"
      unfolding g_def by (intro sum_list_mono) simp
    also have "\<dots> \<le> sum_list (map g ms)" using sum_slice_le[OF sl, of g] cc by simp
    finally have b: "0 + sum_list (map (\<lambda>i. sh_size (isec_shdr i) + A) sl) < 2 ^ w"
      using ext by simp
    have u1: "u32 1 = 1" by (simp add: u32_def)
    from slice_offsets_exact[OF w A0 c u1 b] obtain sl' sz where
      h: "slice_offsets w 0 1 sl = (sl', sz, Max (insert 1 (set (map f sl))))"
         "\<forall>i \<in> set sl'. offset i + sh_size (isec_shdr i) \<le> sz"
         "sz \<le> 0 + sum_list (map (\<lambda>i. sh_size (isec_shdr i) + A) sl)"
      unfolding f_def by blast
    have nes: "set (map f sl) \<noteq> {}" using ane sl by simp
    have ge1: "\<forall>a \<in> set (map f sl). 1 \<le> a"
    proof
      fix a assume "a \<in> set (map f sl)"
      then obtain i where "i \<in> set sl" "a = f i" by auto
      then show "1 \<le> a" using mem[OF sl, of i] by simp
    qed
    have "Max (set (map f sl)) \<in> set (map f sl)" using nes by (intro Max_in) simp
    then have "1 \<le> Max (set (map f sl))" using ge1 by blast
    then have "Max (insert 1 (set (map f sl))) = Max (set (map f sl))"
      using nes by (simp add: max_def)
    moreover have "\<forall>i \<in> set sl'. offset i < 2 ^ w" using h(2,3) b by fastforce
    ultimately show ?thesis using h(1) by simp
  qed
  have al: "isec_align w slices = A"
  proof -
    have "map (\<lambda>r. snd (snd r)) (isec_slices w slices) = map (\<lambda>sl. Max (set (map f sl))) slices"
      unfolding isec_slices_def using loc by simp
    then have "isec_align w slices = Max (set (map (\<lambda>sl. Max (set (map f sl))) slices))"
      by (simp add: isec_align_def)
    also have "\<dots> = Max (set (map f (concat slices)))"
      using sne ane by (rule Max_of_slices)
    finally show ?thesis by (simp add: cc A_def max_align_def f_def)
  qed
  have pre: "\<forall>sl \<in> set slices. sl \<noteq> [] \<and> (\<forall>i \<in> set sl. 0 < sh_addralign (isec_shdr i) \<and>
        sh_addralign (isec_shdr i) dvd A \<and> sh_addralign (isec_shdr i) \<le> A \<and>
        u32 (sh_addralign (isec_shdr i)) = sh_addralign (isec_shdr i))"
    using ane mem by (simp add: f_def)
  have b2: "0 + sum_list (map (\<lambda>sl. sum_list (map (\<lambda>i. sh_size (isec_shdr i) + 2 * A) sl)) slices)
      < 2 ^ w"
    using ext sum_concat[of g slices] by (simp add: cc g_def)
  define starts where "starts = isec_starts w slices"
  define sizes where "sizes = isec_sizes w slices"
  define locals where "locals = map fst (isec_slices w slices)"
  have st_eq: "starts = slice_starts A 0 (map (\<lambda>r. fst (snd r)) (map (slice_offsets w 0 1) slices))"
    by (simp add: starts_def isec_starts_def al isec_sizes_def isec_slices_def)
  have sz_eq: "sizes = map (\<lambda>r. fst (snd r)) (map (slice_offsets w 0 1) slices)"
    by (simp add: sizes_def isec_sizes_def isec_slices_def)
  have lc_eq: "locals = map fst (map (slice_offsets w 0 1) slices)"
    by (simp add: locals_def isec_slices_def)
  define R where "R = map (\<lambda>(st, sl). rebase w st sl) (zip starts locals)"
  from slices_layout[OF w A0 sne pre _ b2] have lay:
    "map isec_shdr (concat R) = map isec_shdr (concat slices)"
    "\<forall>i \<in> set (concat R). sh_addralign (isec_shdr i) dvd offset i \<and>
       offset i + sh_size (isec_shdr i) \<le> last starts + last sizes"
    "last starts + last sizes \<le>
       0 + sum_list (map (\<lambda>sl. sum_list (map (\<lambda>i. sh_size (isec_shdr i) + 2 * A) sl)) slices)"
    unfolding R_def st_eq sz_eq lc_eq by simp_all
  have rb: "rebase_slices w starts locals = R"
  proof -
    obtain sl0 rest where sl: "slices = sl0 # rest" using sne by (cases slices) auto
    obtain st0 sts where st: "starts = 0 # sts"
      unfolding st_eq sl by simp
    obtain l0 ls where lo: "locals = l0 # ls" "l0 = fst (slice_offsets w 0 1 sl0)"
      unfolding lc_eq sl by simp
    have "\<forall>i \<in> set l0. offset i < 2 ^ w" using loc[of sl0] sl lo(2) by simp
    then have "rebase w 0 l0 = l0" by (rule rebase_zero)
    then show ?thesis unfolding R_def st lo(1) by simp
  qed
  define osec' where "osec' = osec\<lparr>members := concat R,
       osec_shdr := (osec_shdr osec)\<lparr>sh_size := last starts + last sizes, sh_addralign := A\<rparr>\<rparr>"
  have "last starts + last sizes < 2 ^ 64" using lay(3) b2 w64 by simp
  then have u: "u64 (last starts + last sizes) = last starts + last sizes" by (rule u64_id)
  have res: "set_isec_offsets_osec w osec = Some (Inr osec')"
    using ne sp rb u
    by (simp add: set_isec_offsets_osec_def ms_def[symmetric] osec'_def starts_def[symmetric]
        sizes_def[symmetric] locals_def[symmetric] al)
  show ?thesis
    using res sp lay(1,2) cc
    by (intro exI[of _ osec'] exI[of _ slices])
       (simp add: osec'_def ms_def[symmetric] starts_def sizes_def A_def)
qed

lemma split_short:
  "ms \<noteq> [] \<Longrightarrow> length ms < 10000 \<Longrightarrow> split ms 10000 = Some (Inr [ms])"
  by (simp add: split_def to_size_t_def split_loop.simps)

lemma align_to_isec_examples:
  "align_to 0 8 = 0" "align_to 0xFFFFFFFFFFFFFFF8 8 = 0xFFFFFFFFFFFFFFF8"
  "align_to 0 4 = 0" "align_to 10 16 = 16"
  by (simp_all add: align_to_def u64_def)

lemma wrapping_slice:
  "slice_offsets 64 0 1 wrapping_members = (members wrapped_osec, 8, 8)"
  by (simp add: wrapping_members_def wrapped_osec_def mk_isec_def Let_def
      align_to_isec_examples u64_def u32_def trunc_def)

lemma small_slice:
  "slice_offsets 64 0 1 small_members = (members small_osec_laid_out, 19, 16)"
  by (simp add: small_members_def small_osec_laid_out_def mk_isec_def Let_def
      align_to_isec_examples u64_def u32_def trunc_def)

lemma wrapping_result:
  "set_isec_offsets_osec 64 (mk_osec wrapping_members) = Some (Inr wrapped_osec)"
proof -
  have s: "split wrapping_members 10000 = Some (Inr [wrapping_members])"
    by (rule split_short) (simp_all add: wrapping_members_def)
  have n: "wrapping_members \<noteq> []" by (simp add: wrapping_members_def)
  have sl: "slice_offsets 64 0 (Suc 0) wrapping_members = (members wrapped_osec, 8, 8)"
    using wrapping_slice by simp
  show ?thesis
    using n
    by (simp add: set_isec_offsets_osec_def mk_osec_def s isec_starts_def isec_sizes_def
        isec_align_def isec_slices_def sl u64_def)
       (simp add: wrapped_osec_def)
qed

lemma small_result:
  "set_isec_offsets_osec 64 (mk_osec small_members) = Some (Inr small_osec_laid_out)"
proof -
  have s: "split small_members 10000 = Some (Inr [small_members])"
    by (rule split_short) (simp_all add: small_members_def)
  have n: "small_members \<noteq> []" by (simp add: small_members_def)
  have sl: "slice_offsets 64 0 (Suc 0) small_members = (members small_osec_laid_out, 19, 16)"
    using small_slice by simp
  show ?thesis
    using n
    by (simp add: set_isec_offsets_osec_def mk_osec_def s isec_starts_def isec_sizes_def
        isec_align_def isec_slices_def sl u64_def)
       (simp add: small_osec_laid_out_def)
qed

lemma align_to_cut_examples:
  "align_to 0 8 = 0" "align_to 8 0x100000000 = 0x100000000"
  "align_to 0x100000008 16 = 0x100000010" "align_to 0 0 = 0"
  by (simp_all add: align_to_def u64_def)

lemma u32_cut_examples:
  "u32 0x100000000 = 0" "u32 8 = 8" "u32 16 = 16" "u32 (Suc 0) = Suc 0" "u32 0 = 0"
  by (simp_all add: u32_def)

lemma cut_slice:
  "slice_offsets 64 0 1 cut_members = (members cut_osec, 0x100000018, 16)"
  by (simp add: cut_members_def cut_osec_def mk_isec_def Let_def
      align_to_cut_examples u32_cut_examples u64_def trunc_def)

lemma cut_result:
  "set_isec_offsets_osec 64 (mk_osec cut_members) = Some (Inr cut_osec)"
proof -
  have s: "split cut_members 10000 = Some (Inr [cut_members])"
    by (rule split_short) (simp_all add: cut_members_def)
  have n: "cut_members \<noteq> []" by (simp add: cut_members_def)
  have sl: "slice_offsets 64 0 (Suc 0) cut_members = (members cut_osec, 0x100000018, 16)"
    using cut_slice by simp
  show ?thesis
    using n
    by (simp add: set_isec_offsets_osec_def mk_osec_def s isec_starts_def isec_sizes_def
        isec_align_def isec_slices_def sl u64_def)
       (simp add: cut_osec_def)
qed

lemma zero_align_slice:
  "slice_offsets 64 0 1 zero_members = (members zero_osec, 4, 1)"
  by (simp add: zero_members_def zero_osec_def mk_isec_def Let_def
      align_to_cut_examples u32_cut_examples u64_def trunc_def)

lemma zero_align_result:
  "set_isec_offsets_osec 64 (mk_osec zero_members) = Some (Inr zero_osec)"
proof -
  have s: "split zero_members 10000 = Some (Inr [zero_members])"
    by (rule split_short) (simp_all add: zero_members_def)
  have n: "zero_members \<noteq> []" by (simp add: zero_members_def)
  have sl: "slice_offsets 64 0 (Suc 0) zero_members = (members zero_osec, 4, 1)"
    using zero_align_slice by simp
  show ?thesis
    using n
    by (simp add: set_isec_offsets_osec_def mk_osec_def s isec_starts_def isec_sizes_def
        isec_align_def isec_slices_def sl u64_def)
       (simp add: zero_osec_def)
qed

lemma cut_max: "max_align cut_members = 0x100000000"
  by (simp add: max_align_def cut_members_def mk_isec_def)

lemma zero_max: "max_align zero_members = 0"
  by (simp add: max_align_def zero_members_def mk_isec_def)

lemma split_two:
  assumes "length xs = 10000"
  shows "split (xs @ [y]) 10000 = Some (Inr [xs, [y]])"
proof -
  have u: "to_size_t 10000 = 10000" by (simp add: to_size_t_def)
  have a: "split_loop 10000 (xs @ [y]) [] = split_loop 10000 [y] [xs]"
    by (subst split_loop.simps) (simp add: assms)
  have b: "split_loop 10000 [y] [xs] = Some ([y], [xs])"
    by (subst split_loop.simps) simp
  show ?thesis by (simp add: split_def u a b)
qed

lemma align_to_four: "4 * k < 2 ^ 64 \<Longrightarrow> align_to (4 * k) 4 = 4 * k"
proof -
  assume b: "4 * k < 2 ^ 64"
  have "(4 * k + 4 - 1) div 4 = k" by simp
  then have "(4 * k + 4 - 1) div 4 * 4 = 4 * k" by simp
  then show ?thesis using b by (simp only: align_to_def u64_def mod_less)
qed

lemma slice_replicate:
  "al = 1 \<or> al = 4 \<Longrightarrow> 4 * (k + n) < 2 ^ 64 \<Longrightarrow>
   slice_offsets 64 (4 * k) al (replicate n (mk_isec ''.a'' 4 4)) =
     (map (\<lambda>j. (mk_isec ''.a'' 4 4)\<lparr>offset := 4 * j\<rparr>) [k ..< k + n], 4 * (k + n),
      if n = 0 then al else 4)"
proof (induction n arbitrary: k al)
  case 0
  then show ?case by simp
next
  case (Suc n)
  have b: "4 * k < 2 ^ 64" "4 * k + 4 < 2 ^ 64" "4 * (Suc k + n) < 2 ^ 64"
    using Suc.prems(2) by simp_all
  have e1: "align_to (4 * k) (sh_addralign (isec_shdr (mk_isec ''.a'' 4 4))) = 4 * k"
    using align_to_four[OF b(1)] by (simp add: mk_isec_def)
  have e2: "trunc 64 (4 * k) = 4 * k" using b(1) by (simp add: trunc_def)
  have e3: "u64 (4 * k + sh_size (isec_shdr (mk_isec ''.a'' 4 4))) = 4 * Suc k"
    using b(2) by (simp add: u64_def mk_isec_def)
  have e4: "max (u32 al) (u32 (sh_addralign (isec_shdr (mk_isec ''.a'' 4 4)))) = 4"
    using Suc.prems(1) by (auto simp: u32_def mk_isec_def)
  have ih: "slice_offsets 64 (4 * Suc k) 4 (replicate n (mk_isec ''.a'' 4 4)) =
     (map (\<lambda>j. (mk_isec ''.a'' 4 4)\<lparr>offset := 4 * j\<rparr>) [Suc k ..< Suc k + n], 4 * (Suc k + n),
      if n = 0 then 4 else 4)"
    by (rule Suc.IH[OF _ b(3)]) simp
  have u: "[k ..< k + Suc n] = k # [Suc k ..< Suc k + n]"
    by (simp add: upt_conv_Cons)
  show ?case
    unfolding replicate_Suc slice_offsets.simps Let_def e1 e2 e3 e4 ih u
    by simp
qed

lemma slice_b:
  "slice_offsets 64 0 1 [mk_isec ''.b'' 3 3] = ([(mk_isec ''.b'' 3 3)\<lparr>offset := 0\<rparr>], 3, 3)"
proof -
  have "align_to 0 3 = 0" by (simp add: align_to_def u64_def)
  moreover have "u32 3 = 3" "u32 (Suc 0) = Suc 0" by (simp_all add: u32_def)
  ultimately show ?thesis
    by (simp add: mk_isec_def Let_def u64_def trunc_def)
qed

lemma many_result:
  assumes n: "n = 10000"
  shows "set_isec_offsets_osec 64 (mk_osec (many_members n)) = Some (Inr (many_osec n))"
proof -
  define a where "a = mk_isec ''.a'' 4 4"
  define b where "b = mk_isec ''.b'' 3 3"
  define xs where "xs = replicate n a"
  define xs' where "xs' = map (\<lambda>j. a\<lparr>offset := 4 * j\<rparr>) [0 ..< n]"
  have len: "length xs = 10000" unfolding xs_def using n by (simp only: length_replicate)
  have sp: "split (xs @ [b]) 10000 = Some (Inr [xs, [b]])" using len by (rule split_two)
  have bound: "4 * (0 + n) < (2::nat) ^ 64" unfolding n by simp
  have s0: "slice_offsets 64 0 1 xs = (xs', 4 * n, 4)"
  proof -
    have "n \<noteq> 0" unfolding n by simp
    then show ?thesis
      using slice_replicate[of 1 0 n, OF _ bound] by (simp add: xs_def xs'_def a_def)
  qed
  have s1: "slice_offsets 64 0 1 [b] = ([b\<lparr>offset := 0\<rparr>], 3, 3)"
    unfolding b_def by (rule slice_b)
  have sl: "isec_slices 64 [xs, [b]] = [(xs', 4 * n, 4), ([b\<lparr>offset := 0\<rparr>], 3, 3)]"
    by (simp only: isec_slices_def list.map s0 s1)
  have al: "isec_align 64 [xs, [b]] = 4"
    by (simp add: isec_align_def sl)
  have sz: "isec_sizes 64 [xs, [b]] = [4 * n, 3]"
    by (simp add: isec_sizes_def sl)
  have at: "align_to (u64 (0 + 4 * n)) 4 = 4 * n"
  proof -
    have "u64 (0 + 4 * n) = 4 * n" using bound by (simp add: u64_def)
    then show ?thesis using align_to_four[of n] bound by simp
  qed
  have st: "isec_starts 64 [xs, [b]] = [0, 4 * n]"
    unfolding isec_starts_def al sz by (simp only: slice_starts.simps at)
  have rb: "concat (rebase_slices 64 [0, 4 * n] (map fst (isec_slices 64 [xs, [b]]))) =
      xs' @ [b\<lparr>offset := 4 * n\<rparr>]"
    unfolding sl using bound by (simp add: rebase_def trunc_def)
  have sh: "u64 (last [0, 4 * n] + last [4 * n, 3]) = 4 * n + 3"
    unfolding n by (simp add: u64_def)
  have ne: "members (mk_osec (xs @ [b])) \<noteq> []" by (simp add: mk_osec_def)
  have m: "members (mk_osec (xs @ [b])) = xs @ [b]" by (simp add: mk_osec_def)
  have "set_isec_offsets_osec 64 (mk_osec (xs @ [b])) =
      Some (Inr ((mk_osec (xs @ [b]))\<lparr>
                 members := xs' @ [b\<lparr>offset := 4 * n\<rparr>],
                 osec_shdr := (osec_shdr (mk_osec (xs @ [b])))\<lparr>
                   sh_size := 4 * n + 3, sh_addralign := 4\<rparr>\<rparr>))"
    unfolding set_isec_offsets_osec_def m sp
    by (simp only: st sz al rb sh option.case sum.case) simp
  then show ?thesis
    by (simp add: many_members_def many_osec_def xs_def xs'_def a_def b_def mk_osec_def)
qed

lemma many_last:
  "last (members (many_osec n)) = (mk_isec ''.b'' 3 3)\<lparr>offset := 4 * n\<rparr>"
  by (simp add: many_osec_def)

text \<open>
  The claim as it is stated fails in four ways. Members of \<open>2^64 - 8\<close> and 16 bytes
  give an output section of 8 bytes, less than the first member alone: the running
  offset wraps around. A member with the alignment \<open>2^32\<close> counts as 0 in
  \<^verbatim>\<open>std::max<u32>\<close>, and the output section gets a smaller alignment than its
  largest member. Members whose alignment is 0 leave the output section with the
  alignment 1, the initial value, which is not their maximum. And in a second slice,
  whose start is aligned to the largest alignment only, a member of alignment 3 gets the
  offset 40000, which is not a multiple of 3.
\<close>

theorem set_isec_offsets_counterexamples:
  "set_isec_offsets_osec 64 (mk_osec wrapping_members) = Some (Inr wrapped_osec) \<and>
   \<not> offset (hd (members wrapped_osec)) + sh_size (isec_shdr (hd (members wrapped_osec)))
       \<le> sh_size (osec_shdr wrapped_osec) \<and>
   set_isec_offsets_osec 64 (mk_osec cut_members) = Some (Inr cut_osec) \<and>
   sh_addralign (osec_shdr cut_osec) \<noteq> max_align cut_members \<and>
   set_isec_offsets_osec 64 (mk_osec zero_members) = Some (Inr zero_osec) \<and>
   sh_addralign (osec_shdr zero_osec) \<noteq> max_align zero_members \<and>
   set_isec_offsets_osec 64 (mk_osec (many_members 10000)) = Some (Inr (many_osec 10000)) \<and>
   \<not> sh_addralign (isec_shdr (last (members (many_osec 10000)))) dvd
       offset (last (members (many_osec 10000)))"
proof -
  have a: "\<not> offset (hd (members wrapped_osec)) +
        sh_size (isec_shdr (hd (members wrapped_osec))) \<le> sh_size (osec_shdr wrapped_osec)"
    by (simp add: wrapped_osec_def)
  have b: "sh_addralign (osec_shdr cut_osec) \<noteq> max_align cut_members"
    unfolding cut_max by (simp add: cut_osec_def)
  have c: "sh_addralign (osec_shdr zero_osec) \<noteq> max_align zero_members"
    unfolding zero_max by (simp add: zero_osec_def)
  have "\<not> (3::nat) dvd 4 * 10000" by simp
  then have d: "\<not> sh_addralign (isec_shdr (last (members (many_osec 10000)))) dvd
       offset (last (members (many_osec 10000)))"
    unfolding many_last by (simp add: mk_isec_def)
  have m: "set_isec_offsets_osec 64 (mk_osec (many_members 10000)) =
      Some (Inr (many_osec 10000))"
    by (rule many_result) simp
  show ?thesis
    using wrapping_result cut_result zero_align_result m a b c d by (intro conjI)
qed

lemma small_members_facts:
  "members (mk_osec small_members) \<noteq> []"
  "\<forall>i \<in> set (members (mk_osec small_members)). valid_align (sh_addralign (isec_shdr i))"
  "isec_extent (members (mk_osec small_members)) < 2 ^ 64"
proof -
  have "valid_align 4" unfolding valid_align_def by (rule image_eqI[of _ _ 2]) simp_all
  moreover have "valid_align 16" unfolding valid_align_def by (rule image_eqI[of _ _ 4]) simp_all
  ultimately
  show "\<forall>i \<in> set (members (mk_osec small_members)). valid_align (sh_addralign (isec_shdr i))"
    by (simp add: mk_osec_def small_members_def mk_isec_def)
  show "members (mk_osec small_members) \<noteq> []" by (simp add: mk_osec_def small_members_def)
  show "isec_extent (members (mk_osec small_members)) < 2 ^ 64"
    by (simp add: mk_osec_def small_members_def mk_isec_def isec_extent_def max_align_def)
qed


theorem set_isec_offsets_invariants_witness:
  "members (mk_osec small_members) \<noteq> [] \<and> (64 :: nat) \<le> 64 \<and>
   list_all (\<lambda>i. valid_align (sh_addralign (isec_shdr i))) (members (mk_osec small_members)) \<and>
   isec_extent (members (mk_osec small_members)) < 2 ^ 64 \<and>
   set_isec_offsets_osec 64 (mk_osec small_members) = Some (Inr small_osec_laid_out) \<and>
   map offset (members small_osec_laid_out) = [0, 16] \<and>
   sh_size (osec_shdr small_osec_laid_out) = 19 \<and>
   sh_addralign (osec_shdr small_osec_laid_out) = max_align (members (mk_osec small_members))"
proof -
  have w: "(64 :: nat) \<le> 64" by simp
  from set_isec_offsets_invariants[OF small_members_facts(1) w small_members_facts(2,3)]
  obtain osec' where
    "set_isec_offsets_osec 64 (mk_osec small_members) = Some (Inr osec')"
    "sh_addralign (osec_shdr osec') = max_align (members (mk_osec small_members))"
    by blast
  then have "sh_addralign (osec_shdr small_osec_laid_out) =
      max_align (members (mk_osec small_members))"
    by (simp add: small_result)
  then show ?thesis
    using small_members_facts small_result
    by (simp add: list_all_iff) (simp add: small_osec_laid_out_def)
qed

section \<open>Verification: \<^verbatim>\<open>check_duplicate_symbols\<close>\<close>












subsection \<open>The registration\<close>
































section \<open>Verification: \<^verbatim>\<open>fill_symbol_versions\<close>\<close>















































end
